theory Spec2Isabelle
  imports Main
begin

section \<open>Values, deferred values and their settlement\<close>

text \<open>
  The JavaScript values the operations of \<^verbatim>\<open>mapAF.js\<close> see.  An indexed sequence
  (\<open>VArr\<close>) is a list of slots, \<open>None\<close> being a hole.  A record (\<open>VRec\<close>) carries its
  \<^verbatim>\<open>length\<close> property, when it has one, and its index-keyed entries.  A deferred
  value is written by what it settles to: \<open>VFulfilled v\<close> is a promise fulfilled with
  \<open>v\<close>, \<open>VRejected e\<close> a promise rejected with \<open>e\<close>; the time of settlement is not
  part of a value.  Numbers are the integers; an integer that is not itself a Number
  value stands for the nearest one where it is printed.  Function values occur only as
  the callable argument of an operation (type \<open>callback\<close> below).
\<close>

datatype val =
    VUndefined
  | VNull
  | VBool bool
  | VNum int
  | VStr string
  | VRec "val option" "(nat \<times> val) list"
  | VArr "val option list"
  | VTypeError string
  | VFulfilled val
  | VRejected val

text \<open>What a deferred value settles to: fulfilment with a payload, or rejection with a reason.\<close>

datatype 'a outcome = Fulfil 'a | Reject val

type_synonym view = "val option list"

text \<open>
  Awaiting a value.  A promise resolved with another promise adopts its state, so
  fulfilment is flattened; a concrete value is its own result.
\<close>

fun settle :: "val \<Rightarrow> val outcome" where
  "settle (VFulfilled v) = settle v"
| "settle (VRejected e) = Reject e"
| "settle v = Fulfil v"

text \<open>\<^verbatim>\<open>Promise.resolve(v)\<close>: a promise is returned as it is, any other value is wrapped.\<close>

fun Promise_resolve :: "val \<Rightarrow> val" where
  "Promise_resolve (VFulfilled v) = VFulfilled v"
| "Promise_resolve (VRejected e) = VRejected e"
| "Promise_resolve v = VFulfilled v"

text \<open>The promise object that has settled to a given outcome.\<close>

fun promise_of :: "val outcome \<Rightarrow> val" where
  "promise_of (Fulfil v) = VFulfilled v"
| "promise_of (Reject e) = VRejected e"

fun map_outcome :: "('a \<Rightarrow> 'b) \<Rightarrow> 'a outcome \<Rightarrow> 'b outcome" where
  "map_outcome g (Fulfil a) = Fulfil (g a)"
| "map_outcome g (Reject e) = Reject e"

text \<open>\<^verbatim>\<open>x >>> 0\<close> on a length: the unsigned 32-bit value.\<close>

definition to_uint32 :: "nat \<Rightarrow> nat" where
  "to_uint32 n = n mod 2 ^ 32"

section \<open>String coercion\<close>

text \<open>
  The template literals \<^verbatim>\<open>${arr}\<close> and \<^verbatim>\<open>${callback}\<close> of \<^verbatim>\<open>mapAF.js\<close> coerce a
  value to a string the default way (\<^verbatim>\<open>ToString\<close>).
\<close>

text \<open>The decimal digits of a natural number.\<close>

fun show_nat :: "nat \<Rightarrow> string" where
  "show_nat n =
     (if n < 10 then [''0123456789'' ! n]
      else show_nat (n div 10) @ [''0123456789'' ! (n mod 10)])"

text \<open>
  The Number value of a natural number: the nearest double, that is the nearest multiple
  of a power of two with a significand of 53 bits, a tie going to the even significand.
  \<open>None\<close> is \<^verbatim>\<open>Infinity\<close>.
\<close>

fun bit_length :: "nat \<Rightarrow> nat" where
  "bit_length n = (if n = 0 then 0 else Suc (bit_length (n div 2)))"

definition number_value :: "nat \<Rightarrow> nat option" where
  "number_value c =
     (if c < 2 ^ 53 then Some c
      else let e = bit_length c - 53;
               q = c div 2 ^ e;
               r = c mod 2 ^ e;
               q' = (if 2 ^ (e - 1) < r \<or> (r = 2 ^ (e - 1) \<and> odd q) then q + 1 else q)
           in if q' * 2 ^ e < 2 ^ 1024 then Some (q' * 2 ^ e) else None)"

text \<open>
  \<^verbatim>\<open>Number::toString\<close> prints the shortest decimal that still denotes the number: the
  fewest significant digits \<open>p\<close> such that a decimal of \<open>p\<close> digits has the Number value
  \<open>x\<close>, and among those of \<open>p\<close> digits the one nearest to \<open>x\<close>.  The two decimals of
  \<open>p\<close> digits around \<open>x\<close> are the only candidates; 17 digits always suffice.
\<close>

definition shortest_at :: "nat \<Rightarrow> nat \<Rightarrow> nat option" where
  "shortest_at x p =
     (let scale = 10 ^ (length (show_nat x) - p);
          lo = x div scale;
          c1 = lo * scale;
          c2 = (lo + 1) * scale
      in if number_value c1 = Some x \<and> number_value c2 = Some x
         then Some (if x - c1 < c2 - x then c1
                    else if c2 - x < x - c1 then c2
                    else if even lo then c1 else c2)
         else if number_value c1 = Some x then Some c1
         else if number_value c2 = Some x then Some c2
         else None)"

fun shortest_from :: "nat \<Rightarrow> nat \<Rightarrow> nat \<Rightarrow> nat" where
  "shortest_from x p 0 = x"
| "shortest_from x p (Suc fuel) =
     (case shortest_at x p of
        Some c \<Rightarrow> c
      | None \<Rightarrow> shortest_from x (Suc p) fuel)"

definition shortest :: "nat \<Rightarrow> nat" where
  "shortest x = shortest_from x 1 17"

text \<open>
  A decimal of more than 21 digits is printed in exponent form: its first significant
  digit, the other significant digits after a point, and the exponent.
\<close>

definition exponent_form :: "nat \<Rightarrow> string" where
  "exponent_form c =
     (let ds = show_nat c;
          sig = rev (dropWhile (\<lambda>d. d = CHR ''0'') (rev ds))
      in hd sig # (if tl sig = [] then [] else CHR ''.'' # tl sig)
           @ ''e+'' @ show_nat (length ds - 1))"

text \<open>
  \<^verbatim>\<open>Number::toString\<close> on the number an integer stands for.  Below \<open>2 ^ 53\<close> every
  integer is a Number value and is printed digit by digit; from \<open>10 ^ 21\<close> on the
  text is in exponent form (\<^verbatim>\<open>1e+21\<close>).
\<close>

definition Number_toString :: "int \<Rightarrow> string" where
  "Number_toString k =
     (if k < 0 then ''-'' else []) @
     (case number_value (nat \<bar>k\<bar>) of
        None \<Rightarrow> ''Infinity''
      | Some x \<Rightarrow>
          if x < 2 ^ 53 then show_nat x
          else if length (show_nat (shortest x)) \<le> 21 then show_nat (shortest x)
          else exponent_form (shortest x))"

text \<open>\<^verbatim>\<open>Array.prototype.join\<close> on the texts of the elements.\<close>

fun join :: "string \<Rightarrow> string list \<Rightarrow> string" where
  "join sep [] = []"
| "join sep [s] = s"
| "join sep (s # t # ss) = s @ sep @ join sep (t # ss)"

text \<open>
  \<^verbatim>\<open>ToString\<close>.  A primitive value gives its text.  An array gives the texts of its
  slots joined by commas (\<^verbatim>\<open>Array.prototype.toString\<close>); the text of a slot
  (\<open>element_text\<close>) is empty for a hole, null and undefined, and the text of the
  element otherwise.  A plain record gives \<^verbatim>\<open>[object Object]\<close>, a promise
  \<^verbatim>\<open>[object Promise]\<close>.  An error gives its name and, unless the message is empty, a
  colon and the message (\<^verbatim>\<open>Error.prototype.toString\<close>).
\<close>

fun toString :: "val \<Rightarrow> string" and element_text :: "val option \<Rightarrow> string" where
  "toString VUndefined = ''undefined''"
| "toString VNull = ''null''"
| "toString (VBool b) = (if b then ''true'' else ''false'')"
| "toString (VNum k) = Number_toString k"
| "toString (VStr s) = s"
| "toString (VRec l es) = ''[object Object]''"
| "toString (VArr xs) = join '','' (map element_text xs)"
| "toString (VTypeError m) = (if m = [] then ''TypeError'' else ''TypeError: '' @ m)"
| "toString (VFulfilled v) = ''[object Promise]''"
| "toString (VRejected e) = ''[object Promise]''"
| "element_text None = []"
| "element_text (Some VUndefined) = []"
| "element_text (Some VNull) = []"
| "element_text (Some v) = toString v"

section \<open>Shape classifier and collection normalizer\<close>

text \<open>
  Modelled from the spec: \<^verbatim>\<open>permissiveIsArrayLike\<close> (\<^verbatim>\<open>_internal/permissiveIsArrayLike\<close> is
  imported by \<^verbatim>\<open>mapAF.js\<close> and is not among the sources).  Spec 4.1: true iff the value
  is an indexed sequence, a text sequence, or a record exposing a finite non-negative
  32-bit-range \<^verbatim>\<open>length\<close>; false for null, undefined and other non-indexable values.
\<close>

fun permissiveIsArrayLike :: "val \<Rightarrow> bool" where
  "permissiveIsArrayLike (VArr xs) = True"
| "permissiveIsArrayLike (VStr s) = True"
| "permissiveIsArrayLike (VRec (Some (VNum n)) es) = (0 \<le> n \<and> n < 2 ^ 32)"
| "permissiveIsArrayLike v = False"

text \<open>
  Modelled from the spec: the collection normalizer used inside the resolvers (not among
  the sources).  Spec 4.2: an indexed sequence keeps its own gaps as absent slots; an
  array-like record is fully dense, an index without an own entry holding undefined; a
  text sequence is dense, one slot per character unit.
\<close>

fun normalize :: "val \<Rightarrow> view" where
  "normalize (VArr xs) = xs"
| "normalize (VStr s) = map (\<lambda>c. Some (VStr [c])) s"
| "normalize (VRec (Some (VNum n)) es) =
     map (\<lambda>i. Some (case map_of es i of Some v \<Rightarrow> v | None \<Rightarrow> VUndefined)) [0..<nat n]"
| "normalize v = []"

section \<open>Callables, invocations and the event log\<close>

text \<open>
  A callable is invoked as \<^verbatim>\<open>callback.call(thisArg, el, i, arr)\<close>: it takes the
  invocation context, the element, the index and the collection, and either returns a
  value (possibly deferred) or throws.  The argument an operation receives as its
  callable is a function (\<open>Fn\<close>) or some other value (\<open>NotFn\<close>, undefined when the
  argument was left out); \<^verbatim>\<open>typeof callback !== 'function'\<close> tells them apart.
\<close>

datatype completion = Return val | Throw val

type_synonym callable = "val \<Rightarrow> val \<Rightarrow> nat \<Rightarrow> val \<Rightarrow> completion"

datatype callback = Fn callable | NotFn val

text \<open>
  What an operation does besides settling: \<open>ElementResolved i\<close>, the element of slot
  \<open>i\<close> has been resolved; \<open>Invoked thisArg el i arr\<close>, the callable has been invoked
  with these arguments; \<open>ResultResolved i\<close>, the value returned by the invocation for
  slot \<open>i\<close> has been resolved.  In SERIAL mode the log is in order of time.  In
  PARALLEL mode the events of one slot are in order of time and the slots are listed by
  index: the order in time of events of different slots depends on when the deferred
  values settle, and is not represented.
\<close>

datatype event =
    ElementResolved nat
  | Invoked val val nat val
  | ResultResolved nat

type_synonym 'a run = "'a outcome \<times> event list"

fun map_run :: "('a \<Rightarrow> 'b) \<Rightarrow> 'a run \<Rightarrow> 'b run" where
  "map_run g (r, l) = (map_outcome g r, l)"

text \<open>
  \<^verbatim>\<open>p.then(k)\<close> for a continuation \<open>k\<close> that returns a deferred value: a rejected \<open>p\<close>
  is forwarded without running \<open>k\<close>.
\<close>

fun then_p :: "'a run \<Rightarrow> ('a \<Rightarrow> 'b run) \<Rightarrow> 'b run" where
  "then_p (Reject e, l) k = (Reject e, l)"
| "then_p (Fulfil a, l) k = (case k a of (r, l') \<Rightarrow> (r, l @ l'))"

section \<open>The hole-aware combinator\<close>

text \<open>
  Modelled from the spec: \<^verbatim>\<open>promiseAllWithHoles\<close> (\<^verbatim>\<open>_internal/promiseAllWithHoles\<close> is
  not among the sources).  Spec 4.3: waits for every present slot's deferred value to
  settle; the output view keeps absent slots as holes and the index-to-value mapping;
  fails as soon as one present slot's deferred value fails.  Which failure is the first
  depends on timing: \<open>order\<close> lists slot indices in the order in which their deferred
  values settle (indices it leaves out settle afterwards, by index).
\<close>

fun failure :: "val option \<Rightarrow> val option" where
  "failure None = None"
| "failure (Some v) = (case settle v of Reject e \<Rightarrow> Some e | Fulfil w \<Rightarrow> None)"

definition first_failure :: "nat list \<Rightarrow> view \<Rightarrow> val option" where
  "first_failure order slots =
     (case List.map_filter (\<lambda>i. if i < length slots then failure (slots ! i) else None)
             (order @ [0..<length slots]) of
        [] \<Rightarrow> None
      | e # es \<Rightarrow> Some e)"

text \<open>The resolved slot; the rejected case is not reached, a rejection fails the whole.\<close>

fun resolved_slot :: "val option \<Rightarrow> val option" where
  "resolved_slot None = None"
| "resolved_slot (Some v) = (case settle v of Fulfil w \<Rightarrow> Some w | Reject e \<Rightarrow> None)"

definition promiseAllWithHoles :: "nat list \<Rightarrow> view \<Rightarrow> view outcome" where
  "promiseAllWithHoles order slots =
     (case first_failure order slots of
        Some e \<Rightarrow> Reject e
      | None \<Rightarrow> Fulfil (map resolved_slot slots))"

section \<open>The resolvers\<close>

text \<open>
  Modelled from the spec: \<^verbatim>\<open>serial\<close> of \<^verbatim>\<open>_internal/resolve\<close> (not among the sources).
  \<^verbatim>\<open>mapAF.js\<close> calls it with the collection alone and reduces over the array it
  resolves to.  Spec 2 and 4.5: present slots are resolved strictly in ascending index
  order, one completed before the next starts; absent slots are skipped and stay holes;
  the first rejected element fails the whole.
\<close>

fun resolveSerially :: "nat \<Rightarrow> view \<Rightarrow> view run" where
  "resolveSerially i [] = (Fulfil [], [])"
| "resolveSerially i (None # xs) = map_run ((#) None) (resolveSerially (Suc i) xs)"
| "resolveSerially i (Some v # xs) =
     (case settle v of
        Reject e \<Rightarrow> (Reject e, [])
      | Fulfil w \<Rightarrow>
          then_p (Fulfil w, [ElementResolved i])
            (\<lambda>w. map_run ((#) (Some w)) (resolveSerially (Suc i) xs)))"

definition serial :: "val \<Rightarrow> view run" where
  "serial arr = resolveSerially 0 (normalize arr)"

text \<open>
  Modelled from the spec: \<^verbatim>\<open>parallel\<close> of \<^verbatim>\<open>_internal/resolve\<close> (not among the sources).
  Spec 4.4: for every present slot, concurrently: resolve the element, invoke the
  callable with (resolved element, index, the original unresolved view) bound to the
  invocation context, then resolve the callable's return value; absent slots are
  skipped; the results are assembled by the combinator.
\<close>

definition resolveSlot :: "callable \<Rightarrow> val \<Rightarrow> val \<Rightarrow> nat \<Rightarrow> val \<Rightarrow> val run" where
  "resolveSlot mapper thisArg arr i el =
     (case settle el of
        Reject e \<Rightarrow> (Reject e, [])
      | Fulfil v \<Rightarrow>
          (case mapper thisArg v i arr of
             Throw e \<Rightarrow> (Reject e, [ElementResolved i, Invoked thisArg v i arr])
           | Return r \<Rightarrow>
               (case settle r of
                  Reject e \<Rightarrow> (Reject e, [ElementResolved i, Invoked thisArg v i arr])
                | Fulfil w \<Rightarrow>
                    (Fulfil w, [ElementResolved i, Invoked thisArg v i arr, ResultResolved i]))))"

fun resolveSlots :: "callable \<Rightarrow> val \<Rightarrow> val \<Rightarrow> nat \<Rightarrow> view \<Rightarrow> val run option list" where
  "resolveSlots mapper thisArg arr i [] = []"
| "resolveSlots mapper thisArg arr i (None # xs) =
     None # resolveSlots mapper thisArg arr (Suc i) xs"
| "resolveSlots mapper thisArg arr i (Some el # xs) =
     Some (resolveSlot mapper thisArg arr i el) # resolveSlots mapper thisArg arr (Suc i) xs"

fun slot_log :: "val run option \<Rightarrow> event list" where
  "slot_log None = []"
| "slot_log (Some (r, l)) = l"

definition parallel :: "nat list \<Rightarrow> val \<Rightarrow> callable \<Rightarrow> val \<Rightarrow> view run" where
  "parallel order arr mapper thisArg =
     (let slots = resolveSlots mapper thisArg (VArr (normalize arr)) 0 (normalize arr)
      in (promiseAllWithHoles order (map (map_option (promise_of \<circ> fst)) slots),
          concat (map slot_log slots)))"

section \<open>The pipeline wrapper\<close>

text \<open>
  Modelled from the spec: the wrapper class (\<^verbatim>\<open>AsyncAfWrapper\<close> and
  \<^verbatim>\<open>createNewlessClass\<close> are imported by \<^verbatim>\<open>AsyncAF.js\<close> and are not among the sources).
  Spec 3 and 4.6: a stage owns a deferred value and a resolution mode; construction
  accepts any value and validates nothing; PARALLEL is the mode unless switched; a
  chained stage inherits the mode.  Spec 7: a stage whose input is rejected forwards the
  rejection without running its continuation, and an exception thrown by the
  continuation rejects the new stage.
\<close>

record pipeline =
  data :: val
  inSeries :: bool

definition AsyncAF :: "val \<Rightarrow> pipeline" where
  "AsyncAF v = \<lparr>data = v, inSeries = False\<rparr>"

definition series :: "pipeline \<Rightarrow> pipeline" where
  "series p = p\<lparr>inSeries := True\<rparr>"

definition then_AF :: "pipeline \<Rightarrow> (val \<Rightarrow> val + val run) \<Rightarrow> pipeline \<times> event list" where
  "then_AF this k =
     (case settle (data this) of
        Reject e \<Rightarrow> (this\<lparr>data := VRejected e\<rparr>, [])
      | Fulfil v \<Rightarrow>
          (case k v of
             Inl e \<Rightarrow> (this\<lparr>data := VRejected e\<rparr>, [])
           | Inr (r, l) \<Rightarrow> (this\<lparr>data := promise_of r\<rparr>, l)))"

section \<open>mapAF and forEachAF\<close>

text \<open>
  \<^verbatim>\<open>Array.prototype.reduce\<close> with an initial value: the reducer is called for the
  present slots in ascending index order, with the accumulator, the element, the index
  and the array itself.
\<close>

fun reduce_from :: "nat \<Rightarrow> ('a \<Rightarrow> val \<Rightarrow> nat \<Rightarrow> view \<Rightarrow> 'a) \<Rightarrow> view \<Rightarrow> 'a \<Rightarrow> view \<Rightarrow> 'a" where
  "reduce_from i f arr acc [] = acc"
| "reduce_from i f arr acc (None # xs) = reduce_from (Suc i) f arr acc xs"
| "reduce_from i f arr acc (Some el # xs) = reduce_from (Suc i) f arr (f acc el i arr) xs"

definition reduce :: "('a \<Rightarrow> val \<Rightarrow> nat \<Rightarrow> view \<Rightarrow> 'a) \<Rightarrow> 'a \<Rightarrow> view \<Rightarrow> 'a" where
  "reduce f init arr = reduce_from 0 f arr init arr"

text \<open>\<^verbatim>\<open>map[i] = v\<close>: an assignment beyond the length extends the array with holes.\<close>

definition set_index :: "view \<Rightarrow> nat \<Rightarrow> val \<Rightarrow> view" where
  "set_index xs i v =
     (if i < length xs then xs[i := Some v]
      else xs @ replicate (i - length xs) None @ [Some v])"

text \<open>
  \<^verbatim>\<open>mapAF\<close> (\<^verbatim>\<open>mapAF.js\<close>, lines 52 to 65).  The two \<^verbatim>\<open>throw\<close> statements are inside
  the continuation given to \<^verbatim>\<open>this.then\<close>: they are its \<open>Inl\<close> results.  In series,
  (\<open>mapAF_series\<close>, lines 59 to 62) the array \<^verbatim>\<open>serial(arr)\<close> resolves to is reduced,
  starting from the promise of an array of holes of the same length; the reducer stores
  the promise of the callable's result at its index and waits for the combinator.
\<close>

definition mapAF_reducer ::
  "nat list \<Rightarrow> callable \<Rightarrow> val \<Rightarrow> view run \<Rightarrow> val \<Rightarrow> nat \<Rightarrow> view \<Rightarrow> view run" where
  "mapAF_reducer order callback thisArg map' el i arr =
     then_p map' (\<lambda>map'.
       (case callback thisArg el i (VArr arr) of
          Throw e \<Rightarrow> (Reject e, [Invoked thisArg el i (VArr arr)])
        | Return r \<Rightarrow>
            (case promiseAllWithHoles order (set_index map' i (Promise_resolve r)) of
               Reject e \<Rightarrow> (Reject e, [Invoked thisArg el i (VArr arr)])
             | Fulfil m \<Rightarrow> (Fulfil m, [Invoked thisArg el i (VArr arr), ResultResolved i]))))"

definition mapAF_series :: "nat list \<Rightarrow> callable \<Rightarrow> val \<Rightarrow> val \<Rightarrow> view run" where
  "mapAF_series order callback thisArg arr =
     then_p (serial arr) (\<lambda>arr.
       reduce (mapAF_reducer order callback thisArg)
         (Fulfil (replicate (to_uint32 (length arr)) None), []) arr)"

definition mapAF :: "nat list \<Rightarrow> pipeline \<Rightarrow> callback \<Rightarrow> val \<Rightarrow> pipeline \<times> event list" where
  "mapAF order this callback thisArg =
     then_AF this (\<lambda>arr.
       if \<not> permissiveIsArrayLike arr then
         Inl (VTypeError (''mapAF cannot be called on '' @ toString arr
                            @ '', only on an Array or array-like Object''))
       else
         (case callback of
            NotFn c \<Rightarrow> Inl (VTypeError (toString c @ '' is not a function''))
          | Fn f \<Rightarrow>
              Inr (map_run VArr
                (if inSeries this then mapAF_series order f thisArg arr
                 else parallel order arr f thisArg))))"

text \<open>
  \<^verbatim>\<open>forEachAF\<close> (\<^verbatim>\<open>mapAF.js\<close>, lines 100 to 113).  In series (\<open>forEachAF_series\<close>,
  lines 107 to 109) the reducer waits for the promise of the callable's result; the final
  \<^verbatim>\<open>.then(() => {})\<close> replaces whatever was resolved by undefined.
\<close>

definition forEachAF_reducer ::
  "callable \<Rightarrow> val \<Rightarrow> val run \<Rightarrow> val \<Rightarrow> nat \<Rightarrow> view \<Rightarrow> val run" where
  "forEachAF_reducer callback thisArg expr el i arr =
     then_p expr (\<lambda>u.
       (case callback thisArg el i (VArr arr) of
          Throw e \<Rightarrow> (Reject e, [Invoked thisArg el i (VArr arr)])
        | Return r \<Rightarrow>
            (case settle (Promise_resolve r) of
               Reject e \<Rightarrow> (Reject e, [Invoked thisArg el i (VArr arr)])
             | Fulfil w \<Rightarrow> (Fulfil w, [Invoked thisArg el i (VArr arr), ResultResolved i]))))"

definition forEachAF_series :: "callable \<Rightarrow> val \<Rightarrow> val \<Rightarrow> val run" where
  "forEachAF_series callback thisArg arr =
     then_p (serial arr) (\<lambda>arr.
       reduce (forEachAF_reducer callback thisArg) (Fulfil VUndefined, []) arr)"

definition forEachAF :: "nat list \<Rightarrow> pipeline \<Rightarrow> callback \<Rightarrow> val \<Rightarrow> pipeline \<times> event list" where
  "forEachAF order this callback thisArg =
     then_AF this (\<lambda>arr.
       if \<not> permissiveIsArrayLike arr then
         Inl (VTypeError (''forEachAF cannot be called on '' @ toString arr
                            @ '', only on an Array or array-like Object''))
       else
         (case callback of
            NotFn c \<Rightarrow> Inl (VTypeError (toString c @ '' is not a function''))
          | Fn f \<Rightarrow>
              Inr (then_p
                (if inSeries this then forEachAF_series f thisArg arr
                 else map_run VArr (parallel order arr f thisArg))
                (\<lambda>u. (Fulfil VUndefined, [])))))"

section \<open>Vocabulary for the properties\<close>

text \<open>The present slots of a view with their indices, counted from \<open>i\<close>.\<close>

fun present_from :: "nat \<Rightarrow> view \<Rightarrow> (nat \<times> val) list" where
  "present_from i [] = []"
| "present_from i (None # xs) = present_from (Suc i) xs"
| "present_from i (Some el # xs) = (i, el) # present_from (Suc i) xs"

definition present :: "view \<Rightarrow> (nat \<times> val) list" where
  "present xs = present_from 0 xs"

text \<open>The indices at which the callable was invoked, in the order of the log.\<close>

fun invoked_indices :: "event list \<Rightarrow> nat list" where
  "invoked_indices [] = []"
| "invoked_indices (Invoked t el i arr # l) = i # invoked_indices l"
| "invoked_indices (ElementResolved i # l) = invoked_indices l"
| "invoked_indices (ResultResolved i # l) = invoked_indices l"

text \<open>
  What the reduction of \<^verbatim>\<open>mapAF\<close> in series amounts to on a resolved array: slot after
  slot, invoke the callable, resolve what it returns, stop at the first failure.
\<close>

fun run_slots :: "callable \<Rightarrow> val \<Rightarrow> val \<Rightarrow> nat \<Rightarrow> view \<Rightarrow> view run" where
  "run_slots f t a i [] = (Fulfil [], [])"
| "run_slots f t a i (None # xs) = map_run ((#) None) (run_slots f t a (Suc i) xs)"
| "run_slots f t a i (Some el # xs) =
     (case f t el i a of
        Throw e \<Rightarrow> (Reject e, [Invoked t el i a])
      | Return r \<Rightarrow>
          (case settle r of
             Reject e \<Rightarrow> (Reject e, [Invoked t el i a])
           | Fulfil w \<Rightarrow>
               then_p (Fulfil w, [Invoked t el i a, ResultResolved i])
                 (\<lambda>w. map_run ((#) (Some w)) (run_slots f t a (Suc i) xs))))"

text \<open>
  The view every slot of which went through: element resolved, callable invoked with
  collection argument \<open>a\<close>, result resolved; \<open>None\<close> when some slot fails.
\<close>

fun slots_outcome :: "callable \<Rightarrow> val \<Rightarrow> val \<Rightarrow> nat \<Rightarrow> view \<Rightarrow> view option" where
  "slots_outcome f t a i [] = Some []"
| "slots_outcome f t a i (None # xs) = map_option ((#) None) (slots_outcome f t a (Suc i) xs)"
| "slots_outcome f t a i (Some el # xs) =
     (case fst (resolveSlot f t a i el) of
        Reject e \<Rightarrow> None
      | Fulfil w \<Rightarrow> map_option ((#) (Some w)) (slots_outcome f t a (Suc i) xs))"

text \<open>A slot that holds no deferred value any more: a hole or a settled value.\<close>

definition stable :: "val option \<Rightarrow> bool" where
  "stable x \<longleftrightarrow> failure x = None \<and> resolved_slot x = x"

text \<open>The slot an event belongs to.\<close>

fun event_index :: "event \<Rightarrow> nat" where
  "event_index (ElementResolved i) = i"
| "event_index (Invoked t el i arr) = i"
| "event_index (ResultResolved i) = i"

text \<open>An event without the collection argument of the invocation.\<close>

fun stripped :: "event \<Rightarrow> event" where
  "stripped (Invoked t el i arr) = Invoked t el i VUndefined"
| "stripped (ElementResolved i) = ElementResolved i"
| "stripped (ResultResolved i) = ResultResolved i"

section \<open>The callables of the examples\<close>

text \<open>
  The callables the examples of the specification and of the tests pass, on the
  operands the examples give them: numbers are added and multiplied, an index read
  outside an array or at a hole gives undefined.  JavaScript's coercions of other
  operands are not modelled; the definitions return undefined there.
\<close>

text \<open>\<^verbatim>\<open>n => n * 2\<close>\<close>

definition double :: callable where
  "double t n i arr = Return (case n of VNum k \<Rightarrow> VNum (k * 2) | _ \<Rightarrow> VUndefined)"

text \<open>\<^verbatim>\<open>arr[k]\<close>\<close>

definition js_index :: "val \<Rightarrow> int \<Rightarrow> val" where
  "js_index arr k =
     (case arr of
        VArr xs \<Rightarrow>
          (if 0 \<le> k \<and> nat k < length xs
           then (case xs ! nat k of Some v \<Rightarrow> v | None \<Rightarrow> VUndefined)
           else VUndefined)
      | _ \<Rightarrow> VUndefined)"

text \<open>Truthiness, for \<^verbatim>\<open>a || b\<close>.\<close>

fun truthy :: "val \<Rightarrow> bool" where
  "truthy VUndefined = False"
| "truthy VNull = False"
| "truthy (VBool b) = b"
| "truthy (VNum k) = (k \<noteq> 0)"
| "truthy (VStr s) = (s \<noteq> [])"
| "truthy v = True"

text \<open>\<^verbatim>\<open>(n, i, arr) => n + (arr[i - 1] || 0)\<close>\<close>

definition add_previous :: callable where
  "add_previous t n i arr =
     Return (case (n, if truthy (js_index arr (int i - 1)) then js_index arr (int i - 1)
                      else VNum 0) of
               (VNum a, VNum b) \<Rightarrow> VNum (a + b)
             | _ \<Rightarrow> VUndefined)"

text \<open>\<^verbatim>\<open>(n, i, arr) => arr[0] instanceof Promise ? 'deferred' : 'resolved'\<close>\<close>

definition peek :: callable where
  "peek t n i arr =
     Return (case js_index arr 0 of
               VFulfilled v \<Rightarrow> VStr ''deferred''
             | VRejected e \<Rightarrow> VStr ''deferred''
             | _ \<Rightarrow> VStr ''resolved'')"

section \<open>Auxiliary lemmas\<close>

subsection \<open>String coercion\<close>

lemma shortest_first: "shortest_at x 1 = Some c \<Longrightarrow> shortest x = c"
  by (simp add: shortest_def numeral_eq_Suc)

lemma number_value_1e21: "number_value 1000000000000000000000 = Some 1000000000000000000000"
  by (simp add: number_value_def Let_def)

lemma number_value_2e21: "number_value 2000000000000000000000 = Some 2000000000000000000000"
  by (simp add: number_value_def Let_def)

lemma shortest_1e21: "shortest 1000000000000000000000 = 1000000000000000000000"
proof -
  have "shortest_at 1000000000000000000000 1 = Some 1000000000000000000000"
    by (simp add: shortest_at_def Let_def number_value_1e21 number_value_2e21)
  then show ?thesis
    by (rule shortest_first)
qed

text \<open>
  \<^verbatim>\<open>`${42}`\<close>, \<^verbatim>\<open>`${-7}`\<close>, \<^verbatim>\<open>`${1e21}`\<close>, \<^verbatim>\<open>`${TypeError('')}`\<close>,
  \<^verbatim>\<open>`${TypeError('x')}`\<close> and \<^verbatim>\<open>`${[1, , null, [2, undefined]]}`\<close>.
\<close>

lemma toString_examples:
  "toString (VNum 42) = ''42''"
  "toString (VNum (- 7)) = ''-7''"
  "toString (VNum 1000000000000000000000) = ''1e+21''"
  "toString (VTypeError []) = ''TypeError''"
  "toString (VTypeError ''x'') = ''TypeError: x''"
  "toString (VArr [Some (VNum 1), None, Some VNull, Some (VArr [Some (VNum 2), Some VUndefined])])
     = ''1,,,2,''"
proof -
  show "toString (VNum 42) = ''42''"
    by (simp add: Number_toString_def number_value_def)
  show "toString (VNum (- 7)) = ''-7''"
    by (simp add: Number_toString_def number_value_def)
  show "toString (VNum 1000000000000000000000) = ''1e+21''"
    by (simp add: Number_toString_def number_value_1e21 shortest_1e21 exponent_form_def Let_def)
  show "toString (VTypeError []) = ''TypeError''"
    by simp
  show "toString (VTypeError ''x'') = ''TypeError: x''"
    by simp
  show "toString (VArr [Some (VNum 1), None, Some VNull, Some (VArr [Some (VNum 2), Some VUndefined])])
          = ''1,,,2,''"
    by (simp add: Number_toString_def number_value_def)
qed

subsection \<open>Settlement and the combinator\<close>

lemma settle_idem: "settle v = Fulfil w \<Longrightarrow> settle w = Fulfil w"
  by (induction v rule: settle.induct) auto

lemma settle_Promise_resolve: "settle (Promise_resolve v) = settle v"
  by (cases v) auto

lemma settle_promise_of: "settle (promise_of r) = (case r of Fulfil v \<Rightarrow> settle v | Reject e \<Rightarrow> Reject e)"
  by (cases r) auto

lemma map_filter_Nil_iff: "List.map_filter g xs = [] \<longleftrightarrow> (\<forall>x\<in>set xs. g x = None)"
  by (auto simp: List.map_filter_def filter_empty_conv)

lemma set_map_filter: "e \<in> set (List.map_filter g xs) \<longleftrightarrow> (\<exists>x\<in>set xs. g x = Some e)"
  by (induction xs) (auto simp: List.map_filter_simps split: option.splits)

lemma first_failure_None_iff:
  "first_failure order slots = None \<longleftrightarrow> (\<forall>x\<in>set slots. failure x = None)"
proof -
  have "first_failure order slots = None \<longleftrightarrow>
        List.map_filter (\<lambda>i. if i < length slots then failure (slots ! i) else None)
             (order @ [0..<length slots]) = []"
    by (simp add: first_failure_def split: list.splits)
  also have "\<dots> \<longleftrightarrow> (\<forall>i<length slots. failure (slots ! i) = None)"
    by (auto simp: map_filter_Nil_iff)
  also have "\<dots> \<longleftrightarrow> (\<forall>x\<in>set slots. failure x = None)"
    by (simp add: all_set_conv_all_nth)
  finally show ?thesis .
qed

lemma first_failure_Some:
  assumes "first_failure order slots = Some e"
  shows "\<exists>x\<in>set slots. failure x = Some e"
proof -
  from assms obtain es where
    "List.map_filter (\<lambda>i. if i < length slots then failure (slots ! i) else None)
             (order @ [0..<length slots]) = e # es"
    by (auto simp: first_failure_def split: list.splits)
  then have "e \<in> set (List.map_filter (\<lambda>i. if i < length slots then failure (slots ! i) else None)
             (order @ [0..<length slots]))" by simp
  then obtain i where "(if i < length slots then failure (slots ! i) else None) = Some e"
    unfolding set_map_filter by blast
  then have "i < length slots" "failure (slots ! i) = Some e"
    by (auto split: if_splits)
  then show ?thesis by (metis nth_mem)
qed

lemma promiseAllWithHoles_Fulfil_iff:
  "promiseAllWithHoles order slots = Fulfil r \<longleftrightarrow>
     (\<forall>x\<in>set slots. failure x = None) \<and> r = map resolved_slot slots"
  using first_failure_None_iff [of order slots]
  by (auto simp: promiseAllWithHoles_def split: option.splits)

lemma promiseAllWithHoles_Reject:
  "promiseAllWithHoles order slots = Reject e \<Longrightarrow> \<exists>x\<in>set slots. failure x = Some e"
  using first_failure_Some [of order slots e]
  by (auto simp: promiseAllWithHoles_def split: option.splits)


lemma failure_Promise_resolve:
  "failure (Some (Promise_resolve r)) = (case settle r of Reject e \<Rightarrow> Some e | Fulfil w \<Rightarrow> None)"
  by (simp add: settle_Promise_resolve)

lemma resolved_slot_Promise_resolve:
  "settle r = Fulfil w \<Longrightarrow> resolved_slot (Some (Promise_resolve r)) = Some w"
  by (simp add: settle_Promise_resolve)

lemma stable_None: "stable None"
  by (simp add: stable_def)

lemma stable_Some: "settle v = Fulfil w \<Longrightarrow> stable (Some w)"
  by (simp add: stable_def settle_idem)

lemma stable_Some_iff: "stable (Some w) \<longleftrightarrow> settle w = Fulfil w"
  by (auto simp: stable_def split: outcome.splits)

lemma stable_resolved_slot: "failure x = None \<Longrightarrow> stable (resolved_slot x)"
  by (cases x) (auto simp: stable_def settle_idem split: outcome.splits)

lemma mapAF_reducer_Reject:
  "mapAF_reducer order f t (Reject e, l) el i arr = (Reject e, l)"
  by (simp add: mapAF_reducer_def)

lemma reduce_from_mapAF_Reject:
  "reduce_from i (mapAF_reducer order f t) arr (Reject e, l) xs = (Reject e, l)"
proof (induction xs arbitrary: i)
  case Nil
  show ?case by simp
next
  case (Cons x xs)
  then show ?case by (cases x) (simp_all add: mapAF_reducer_Reject)
qed

lemma set_index_at_length:
  "set_index (done @ None # rest) (length done) v = done @ Some v # rest"
  by (simp add: set_index_def)

lemma promiseAllWithHoles_step:
  assumes "\<forall>x\<in>set done. stable x"
  shows "promiseAllWithHoles order (done @ Some (Promise_resolve r) # replicate n None) =
           (case settle r of
              Reject e \<Rightarrow> Reject e
            | Fulfil w \<Rightarrow> Fulfil (done @ Some w # replicate n None))"
proof (cases "settle r")
  case (Fulfil w)
  have a: "\<forall>x\<in>set (done @ Some (Promise_resolve r) # replicate n None). failure x = None"
    using assms Fulfil by (auto simp: stable_def settle_Promise_resolve)
  have "map resolved_slot done = done"
    using assms by (intro map_idI) (simp add: stable_def)
  then have b: "map resolved_slot (done @ Some (Promise_resolve r) # replicate n None)
                   = done @ Some w # replicate n None"
    using Fulfil by (simp add: settle_Promise_resolve)
  have "promiseAllWithHoles order (done @ Some (Promise_resolve r) # replicate n None)
          = Fulfil (done @ Some w # replicate n None)"
    unfolding promiseAllWithHoles_Fulfil_iff using a b by simp
  then show ?thesis
    using Fulfil by simp
next
  case (Reject e)
  let ?slots = "done @ Some (Promise_resolve r) # replicate n None"
  have "failure (Some (Promise_resolve r)) = Some e"
    using Reject by (simp add: settle_Promise_resolve)
  then have "\<not> (\<forall>x\<in>set ?slots. failure x = None)"
    by auto
  then have "\<forall>r'. promiseAllWithHoles order ?slots \<noteq> Fulfil r'"
    unfolding promiseAllWithHoles_Fulfil_iff by blast
  then obtain e' where e': "promiseAllWithHoles order ?slots = Reject e'"
    by (cases "promiseAllWithHoles order ?slots") auto
  from promiseAllWithHoles_Reject [OF this] obtain x where x: "x \<in> set ?slots" "failure x = Some e'"
    by blast
  have "e' = e"
  proof -
    from x(1) consider "x \<in> set done" | "x = Some (Promise_resolve r)" | "x = None"
      by auto
    then show ?thesis
    proof cases
      case 1
      then show ?thesis using assms x(2) by (simp add: stable_def)
    next
      case 2
      then show ?thesis using x(2) Reject by (simp add: settle_Promise_resolve)
    next
      case 3
      then show ?thesis using x(2) by simp
    qed
  qed
  with e' Reject show ?thesis by simp
qed

lemma reduce_from_mapAF_run_slots:
  assumes "\<forall>x\<in>set done. stable x" "length done = i"
  shows "reduce_from i (mapAF_reducer order f t) arr
           (Fulfil (done @ replicate (length xs) None), l) xs =
         (case run_slots f t (VArr arr) i xs of
            (Reject e, l') \<Rightarrow> (Reject e, l @ l')
          | (Fulfil ys, l') \<Rightarrow> (Fulfil (done @ ys), l @ l'))"
  using assms
proof (induction xs arbitrary: i "done" l)
  case Nil
  then show ?case by simp
next
  case (Cons x xs)
  show ?case
  proof (cases x)
    case None
    have "reduce_from (Suc i) (mapAF_reducer order f t) arr
            (Fulfil ((done @ [None]) @ replicate (length xs) None), l) xs =
          (case run_slots f t (VArr arr) (Suc i) xs of
             (Reject e, l') \<Rightarrow> (Reject e, l @ l')
           | (Fulfil ys, l') \<Rightarrow> (Fulfil ((done @ [None]) @ ys), l @ l'))"
      using Cons.prems by (intro Cons.IH) (auto simp: stable_None)
    then show ?thesis
      using None
      by (cases "run_slots f t (VArr arr) (Suc i) xs" rule: prod.exhaust;
          cases "fst (run_slots f t (VArr arr) (Suc i) xs)") simp_all
  next
    case (Some el)
    show ?thesis
    proof (cases "f t el i (VArr arr)")
      case (Throw e)
      have "mapAF_reducer order f t
              (Fulfil (done @ None # replicate (length xs) None), l) el i arr
            = (Reject e, l @ [Invoked t el i (VArr arr)])"
        using Throw by (simp add: mapAF_reducer_def)
      then show ?thesis
        using Some Throw by (simp add: reduce_from_mapAF_Reject)
    next
      case (Return r)
      have idx: "set_index (done @ None # replicate (length xs) None) i (Promise_resolve r)
                 = done @ Some (Promise_resolve r) # replicate (length xs) None"
        using Cons.prems(2) set_index_at_length by blast
      show ?thesis
      proof (cases "settle r")
        case (Reject e)
        have "mapAF_reducer order f t
                (Fulfil (done @ None # replicate (length xs) None), l) el i arr
              = (Reject e, l @ [Invoked t el i (VArr arr)])"
          using Return Reject idx promiseAllWithHoles_step [OF Cons.prems(1), of order r "length xs"]
          by (simp add: mapAF_reducer_def)
        then show ?thesis
          using Some Return Reject by (simp add: reduce_from_mapAF_Reject)
      next
        case (Fulfil w)
        have step: "mapAF_reducer order f t
                      (Fulfil (done @ None # replicate (length xs) None), l) el i arr
                    = (Fulfil ((done @ [Some w]) @ replicate (length xs) None),
                       l @ [Invoked t el i (VArr arr), ResultResolved i])"
          using Return Fulfil idx promiseAllWithHoles_step [OF Cons.prems(1), of order r "length xs"]
          by (simp add: mapAF_reducer_def)
        have "reduce_from (Suc i) (mapAF_reducer order f t) arr
                (Fulfil ((done @ [Some w]) @ replicate (length xs) None),
                 l @ [Invoked t el i (VArr arr), ResultResolved i]) xs =
              (case run_slots f t (VArr arr) (Suc i) xs of
                 (Reject e, l') \<Rightarrow> (Reject e, (l @ [Invoked t el i (VArr arr), ResultResolved i]) @ l')
               | (Fulfil ys, l') \<Rightarrow>
                   (Fulfil ((done @ [Some w]) @ ys),
                    (l @ [Invoked t el i (VArr arr), ResultResolved i]) @ l'))"
          using Cons.prems Fulfil by (intro Cons.IH) (auto simp: stable_Some)
        then show ?thesis
          using Some Return Fulfil step
          by (cases "run_slots f t (VArr arr) (Suc i) xs" rule: prod.exhaust;
              cases "fst (run_slots f t (VArr arr) (Suc i) xs)") simp_all
      qed
    qed
  qed
qed

lemma resolveSlot_fst:
  "fst (resolveSlot f t a i el) =
     (case settle el of
        Reject e \<Rightarrow> Reject e
      | Fulfil v \<Rightarrow> (case f t v i a of Throw e \<Rightarrow> Reject e | Return r \<Rightarrow> settle r))"
  by (simp add: resolveSlot_def split: outcome.splits completion.splits)

lemma resolveSlot_Fulfil_settled:
  "fst (resolveSlot f t a i el) = Fulfil w \<Longrightarrow> settle w = Fulfil w"
  by (auto simp: resolveSlot_fst settle_idem split: outcome.splits completion.splits)

lemma resolveSlot_settle_cong:
  "settle el = settle el' \<Longrightarrow> resolveSlot f t a i el = resolveSlot f t a i el'"
  by (simp add: resolveSlot_def)

lemma fst_map_run: "fst (map_run g p) = map_outcome g (fst p)"
  by (cases p) simp

lemma snd_map_run: "snd (map_run g p) = snd p"
  by (cases p) simp

lemma resolveSerially_Some:
  "resolveSerially i (Some v # xs) =
     (case settle v of
        Reject e \<Rightarrow> (Reject e, [])
      | Fulfil w \<Rightarrow>
          (map_outcome ((#) (Some w)) (fst (resolveSerially (Suc i) xs)),
           ElementResolved i # snd (resolveSerially (Suc i) xs)))"
  by (cases "resolveSerially (Suc i) xs") (simp split: outcome.splits)

lemma resolveSerially_None:
  "resolveSerially i (None # xs) =
     (map_outcome ((#) None) (fst (resolveSerially (Suc i) xs)), snd (resolveSerially (Suc i) xs))"
  by (cases "resolveSerially (Suc i) xs") simp

lemmas resolveSerially_Cons = resolveSerially_None resolveSerially_Some
declare resolveSerially.simps(2,3) [simp del]

lemma map_outcome_Fulfil_iff:
  "map_outcome g r = Fulfil y \<longleftrightarrow> (\<exists>x. r = Fulfil x \<and> y = g x)"
  by (cases r) auto

lemma resolveSerially_fst:
  "fst (resolveSerially i xs) = Fulfil r \<longleftrightarrow>
     (\<forall>x\<in>set xs. failure x = None) \<and> r = map resolved_slot xs"
proof (induction xs arbitrary: i r)
  case Nil
  show ?case by auto
next
  case (Cons x xs)
  show ?case
  proof (cases x)
    case None
    then show ?thesis
      by (auto simp: resolveSerially_None map_outcome_Fulfil_iff Cons.IH)
  next
    case (Some v)
    then show ?thesis
      by (cases "settle v") (auto simp: resolveSerially_Some map_outcome_Fulfil_iff Cons.IH)
  qed
qed

lemma resolveSerially_log_prefix:
  "\<exists>rest. map (ElementResolved \<circ> fst) (present_from i xs) = snd (resolveSerially i xs) @ rest"
proof (induction xs arbitrary: i)
  case Nil
  show ?case by simp
next
  case (Cons x xs)
  show ?case
  proof (cases x)
    case None
    then show ?thesis using Cons.IH [of "Suc i"] by (simp add: resolveSerially_None)
  next
    case (Some v)
    then show ?thesis
      using Cons.IH [of "Suc i"] by (cases "settle v") (simp_all add: resolveSerially_Some)
  qed
qed

lemma resolveSerially_log_full:
  "fst (resolveSerially i xs) = Fulfil r \<Longrightarrow>
   snd (resolveSerially i xs) = map (ElementResolved \<circ> fst) (present_from i xs)"
proof (induction xs arbitrary: i r)
  case Nil
  show ?case by simp
next
  case (Cons x xs)
  show ?case
  proof (cases x)
    case None
    then show ?thesis
      using Cons.prems Cons.IH by (auto simp: resolveSerially_None map_outcome_Fulfil_iff)
  next
    case (Some v)
    then show ?thesis
      using Cons.prems Cons.IH
      by (cases "settle v") (auto simp: resolveSerially_Some map_outcome_Fulfil_iff)
  qed
qed

lemma run_slots_None:
  "run_slots f t a i (None # xs) =
     (map_outcome ((#) None) (fst (run_slots f t a (Suc i) xs)), snd (run_slots f t a (Suc i) xs))"
  by (cases "run_slots f t a (Suc i) xs") simp

lemma run_slots_Some:
  "run_slots f t a i (Some el # xs) =
     (case f t el i a of
        Throw e \<Rightarrow> (Reject e, [Invoked t el i a])
      | Return r \<Rightarrow>
          (case settle r of
             Reject e \<Rightarrow> (Reject e, [Invoked t el i a])
           | Fulfil w \<Rightarrow>
               (map_outcome ((#) (Some w)) (fst (run_slots f t a (Suc i) xs)),
                Invoked t el i a # ResultResolved i # snd (run_slots f t a (Suc i) xs))))"
  by (cases "run_slots f t a (Suc i) xs") (simp split: completion.splits outcome.splits)

declare run_slots.simps(2,3) [simp del]

lemma run_slots_fst:
  assumes "\<forall>x\<in>set xs. stable x"
  shows "fst (run_slots f t a i xs) = Fulfil r \<longleftrightarrow> slots_outcome f t a i xs = Some r"
  using assms
proof (induction xs arbitrary: i r)
  case Nil
  show ?case by auto
next
  case (Cons x xs)
  then have IH: "\<And>i r. fst (run_slots f t a i xs) = Fulfil r \<longleftrightarrow> slots_outcome f t a i xs = Some r"
    by simp
  show ?case
  proof (cases x)
    case None
    then show ?thesis
      by (auto simp: run_slots_None map_outcome_Fulfil_iff IH)
  next
    case (Some el)
    with Cons.prems have el: "settle el = Fulfil el"
      by (simp add: stable_Some_iff)
    show ?thesis
      using Some el
      by (auto simp: run_slots_Some resolveSlot_fst map_outcome_Fulfil_iff IH
               split: completion.splits outcome.splits)
  qed
qed

lemma slots_outcome_resolved:
  "\<forall>x\<in>set xs. failure x = None \<Longrightarrow>
   slots_outcome f t a i (map resolved_slot xs) = slots_outcome f t a i xs"
proof (induction xs arbitrary: i)
  case Nil
  show ?case by simp
next
  case (Cons x xs)
  show ?case
  proof (cases x)
    case None
    then show ?thesis using Cons by simp
  next
    case (Some el)
    with Cons.prems obtain v where v: "settle el = Fulfil v"
      by (cases "settle el") auto
    then have "resolveSlot f t a i v = resolveSlot f t a i el"
      by (intro resolveSlot_settle_cong) (simp add: settle_idem)
    moreover have "slots_outcome f t a (Suc i) (map resolved_slot xs) = slots_outcome f t a (Suc i) xs"
      using Cons.prems by (intro Cons.IH) simp
    ultimately show ?thesis
      using Some v by (simp split: outcome.splits)
  qed
qed

lemma slots_outcome_failure:
  "x \<in> set xs \<Longrightarrow> failure x \<noteq> None \<Longrightarrow> slots_outcome f t a i xs = None"
proof (induction xs arbitrary: i)
  case Nil
  then show ?case by simp
next
  case (Cons y ys)
  show ?case
  proof (cases y)
    case None
    then show ?thesis using Cons by auto
  next
    case (Some el)
    then show ?thesis
      using Cons by (auto simp: resolveSlot_fst split: outcome.splits completion.splits)
  qed
qed

lemma slots_outcome_shape:
  "slots_outcome f t a i xs = Some r \<Longrightarrow>
   length r = length xs \<and> (\<forall>j<length xs. (r ! j = None) = (xs ! j = None))"
proof (induction xs arbitrary: i r)
  case Nil
  then show ?case by simp
next
  case (Cons x xs)
  show ?case
  proof (cases x)
    case None
    with Cons.prems obtain r' where r': "slots_outcome f t a (Suc i) xs = Some r'" "r = None # r'"
      by auto
    from Cons.IH [OF r'(1)] r'(2) None show ?thesis
      by (auto simp: nth_Cons split: nat.splits)
  next
    case (Some el)
    with Cons.prems obtain w r' where r': "slots_outcome f t a (Suc i) xs = Some r'" "r = Some w # r'"
      by (auto split: outcome.splits)
    from Cons.IH [OF r'(1)] r'(2) Some show ?thesis
      by (auto simp: nth_Cons split: nat.splits)
  qed
qed

lemma slots_outcome_nth:
  "slots_outcome f t a i xs = Some r \<Longrightarrow> j < length xs \<Longrightarrow> xs ! j = Some el \<Longrightarrow>
   \<exists>v rv w. settle el = Fulfil v \<and> f t v (i + j) a = Return rv \<and> settle rv = Fulfil w
            \<and> r ! j = Some w"
proof (induction xs arbitrary: i r j)
  case Nil
  then show ?case by simp
next
  case (Cons x xs)
  show ?case
  proof (cases j)
    case 0
    with Cons.prems show ?thesis
      by (auto simp: resolveSlot_fst split: outcome.splits completion.splits)
  next
    case (Suc k)
    from Cons.prems(1) obtain y r' where r': "slots_outcome f t a (Suc i) xs = Some r'" "r = y # r'"
      by (cases x) (auto split: outcome.splits)
    from Cons.IH [OF r'(1), of k] Cons.prems(2,3) Suc r'(2) show ?thesis
      by simp
  qed
qed

lemma slots_outcome_cong:
  "(\<And>el j. f t el j a = f t el j b) \<Longrightarrow> slots_outcome f t a i xs = slots_outcome f t b i xs"
proof (induction xs arbitrary: i)
  case Nil
  show ?case by simp
next
  case (Cons x xs)
  have IH: "slots_outcome f t a (Suc i) xs = slots_outcome f t b (Suc i) xs"
    using Cons.prems by (intro Cons.IH)
  show ?case
  proof (cases x)
    case None
    then show ?thesis using IH by simp
  next
    case (Some el)
    have "fst (resolveSlot f t a i el) = fst (resolveSlot f t b i el)"
      by (simp add: resolveSlot_fst Cons.prems split: outcome.splits)
    then show ?thesis using Some IH by (simp split: outcome.splits)
  qed
qed

lemma slots_outcome_total:
  assumes "\<And>j el. j < length xs \<Longrightarrow> xs ! j = Some el \<Longrightarrow>
             \<exists>v rv w. settle el = Fulfil v \<and> f t v (i + j) a = Return rv \<and> settle rv = Fulfil w"
  shows "\<exists>r. slots_outcome f t a i xs = Some r"
  using assms
proof (induction xs arbitrary: i)
  case Nil
  show ?case by simp
next
  case (Cons x xs)
  have "\<exists>v rv w. settle el = Fulfil v \<and> f t v (Suc i + j) a = Return rv \<and> settle rv = Fulfil w"
    if "j < length xs" "xs ! j = Some el" for j el
    using Cons.prems [of "Suc j" el] that by simp
  from Cons.IH [of "Suc i", OF this] obtain r where r: "slots_outcome f t a (Suc i) xs = Some r"
    by blast
  show ?case
  proof (cases x)
    case None
    then show ?thesis using r by simp
  next
    case (Some el)
    from Cons.prems [of 0 el] Some obtain v rv w
      where "settle el = Fulfil v" "f t v i a = Return rv" "settle rv = Fulfil w"
      by auto
    then show ?thesis
      using Some r by (simp add: resolveSlot_fst)
  qed
qed

lemma present_from_mem:
  "(j, el) \<in> set (present_from i xs) \<longleftrightarrow> i \<le> j \<and> j - i < length xs \<and> xs ! (j - i) = Some el"
proof (induction xs arbitrary: i)
  case Nil
  show ?case by simp
next
  case (Cons x xs)
  consider "j < i" | "j = i" | "i < j"
    by linarith
  then show ?case
  proof cases
    case 1
    then show ?thesis using Cons.IH [of "Suc i"] by (cases x) auto
  next
    case 2
    then show ?thesis using Cons.IH [of "Suc i"] by (cases x) auto
  next
    case 3
    then have "j - i = Suc (j - Suc i)"
      by simp
    then show ?thesis
      using 3 Cons.IH [of "Suc i"] by (cases x) auto
  qed
qed

lemma present_mem: "(j, el) \<in> set (present xs) \<longleftrightarrow> j < length xs \<and> xs ! j = Some el"
  by (simp add: present_def present_from_mem)

lemma present_from_lower: "(j, el) \<in> set (present_from i xs) \<Longrightarrow> i \<le> j"
  by (simp add: present_from_mem)

lemma present_from_sorted: "sorted_wrt (<) (map fst (present_from i xs))"
proof (induction xs arbitrary: i)
  case Nil
  show ?case by simp
next
  case (Cons x xs)
  show ?case
  proof (cases x)
    case None
    then show ?thesis using Cons.IH by simp
  next
    case (Some a)
    have "\<forall>p\<in>set (present_from (Suc i) xs). i < fst p"
      using present_from_lower [of _ _ "Suc i" xs] by fastforce
    then show ?thesis using Some Cons.IH by simp
  qed
qed

lemma present_from_distinct: "distinct (map fst (present_from i xs))"
  using present_from_sorted [of i xs] strict_sorted_iff by blast

lemma present_from_resolved_fst:
  "\<forall>x\<in>set xs. failure x = None \<Longrightarrow>
   map fst (present_from i (map resolved_slot xs)) = map fst (present_from i xs)"
proof (induction xs arbitrary: i)
  case Nil
  show ?case by simp
next
  case (Cons x xs)
  then show ?case
    by (cases x) (auto split: outcome.splits)
qed

lemma present_from_resolved_mem:
  "(j, v) \<in> set (present_from i (map resolved_slot xs)) \<Longrightarrow>
   \<exists>el. (j, el) \<in> set (present_from i xs) \<and> settle el = Fulfil v"
  by (auto simp: present_from_mem split: outcome.splits option.splits
           elim!: resolved_slot.elims)

lemma invoked_indices_append:
  "invoked_indices (a @ b) = invoked_indices a @ invoked_indices b"
  by (induction a rule: invoked_indices.induct) auto

lemma invoked_indices_ElementResolved:
  "invoked_indices (map (ElementResolved \<circ> g) ps) = []"
  by (induction ps) auto

lemma invoked_indices_ideal:
  "invoked_indices (concat (map (\<lambda>(j, el). [Invoked t el j a, ResultResolved j]) ps)) = map fst ps"
  by (induction ps) auto

lemma invoked_indices_mem:
  "j \<in> set (invoked_indices l) \<longleftrightarrow> (\<exists>t el a. Invoked t el j a \<in> set l)"
  by (induction l rule: invoked_indices.induct) auto



lemma run_slots_log_prefix:
  "\<exists>rest. concat (map (\<lambda>(j, el). [Invoked t el j a, ResultResolved j]) (present_from i xs))
           = snd (run_slots f t a i xs) @ rest"
proof (induction xs arbitrary: i)
  case Nil
  show ?case by simp
next
  case (Cons x xs)
  show ?case
  proof (cases x)
    case None
    then show ?thesis using Cons.IH [of "Suc i"] by (simp add: run_slots_None)
  next
    case (Some el)
    then show ?thesis
      using Cons.IH [of "Suc i"]
      by (simp add: run_slots_Some split: completion.splits outcome.splits)
  qed
qed

lemma run_slots_log_full:
  "fst (run_slots f t a i xs) = Fulfil r \<Longrightarrow>
   snd (run_slots f t a i xs) =
     concat (map (\<lambda>(j, el). [Invoked t el j a, ResultResolved j]) (present_from i xs))"
proof (induction xs arbitrary: i r)
  case Nil
  show ?case by simp
next
  case (Cons x xs)
  show ?case
  proof (cases x)
    case None
    then show ?thesis
      using Cons.prems Cons.IH by (auto simp: run_slots_None map_outcome_Fulfil_iff)
  next
    case (Some el)
    then show ?thesis
      using Cons.prems Cons.IH
      by (auto simp: run_slots_Some map_outcome_Fulfil_iff split: completion.splits outcome.splits)
  qed
qed

lemma run_slots_log_invoked:
  assumes "Invoked t' v j a' \<in> set (snd (run_slots f t a i xs))"
  shows "t' = t \<and> a' = a \<and> (j, v) \<in> set (present_from i xs)"
proof -
  obtain rest where
    "concat (map (\<lambda>(j, el). [Invoked t el j a, ResultResolved j]) (present_from i xs))
       = snd (run_slots f t a i xs) @ rest"
    using run_slots_log_prefix by blast
  with assms
  have "Invoked t' v j a' \<in>
          set (concat (map (\<lambda>(j, el). [Invoked t el j a, ResultResolved j]) (present_from i xs)))"
    by simp
  then show ?thesis by auto
qed



lemma resolveSlot_log:
  "snd (resolveSlot f t a i el) =
     (case settle el of
        Reject e \<Rightarrow> []
      | Fulfil v \<Rightarrow>
          (case f t v i a of
             Throw e \<Rightarrow> [ElementResolved i, Invoked t v i a]
           | Return r \<Rightarrow>
               (case settle r of
                  Reject e \<Rightarrow> [ElementResolved i, Invoked t v i a]
                | Fulfil w \<Rightarrow> [ElementResolved i, Invoked t v i a, ResultResolved i])))"
  by (simp add: resolveSlot_def split: outcome.splits completion.splits)

lemma resolveSlot_log_invoked:
  "Invoked t' v j a' \<in> set (snd (resolveSlot f t a i el)) \<Longrightarrow>
   t' = t \<and> a' = a \<and> j = i \<and> settle el = Fulfil v"
  unfolding resolveSlot_def
  by (cases "settle el"; cases "f t (case settle el of Fulfil v \<Rightarrow> v | Reject e \<Rightarrow> e) i a")
     (auto split: outcome.splits)

lemma resolveSlots_outcome:
  "(\<forall>x\<in>set (map (map_option (promise_of \<circ> fst)) (resolveSlots f t a i xs)). failure x = None)
     \<and> r = map resolved_slot (map (map_option (promise_of \<circ> fst)) (resolveSlots f t a i xs))
   \<longleftrightarrow> slots_outcome f t a i xs = Some r"
proof (induction xs arbitrary: i r)
  case Nil
  show ?case by auto
next
  case (Cons x xs)
  show ?case
  proof (cases x)
    case None
    then show ?thesis
      using Cons.IH [of "Suc i" "tl r"] by (cases r) auto
  next
    case (Some el)
    show ?thesis
    proof (cases "fst (resolveSlot f t a i el)")
      case (Reject e)
      then show ?thesis using Some by simp
    next
      case (Fulfil w)
      then have "settle w = Fulfil w"
        by (rule resolveSlot_Fulfil_settled)
      then show ?thesis
        using Some Fulfil Cons.IH [of "Suc i" "tl r"] by (cases r) auto
    qed
  qed
qed

lemma parallel_fst:
  "fst (parallel order arr f t) = Fulfil r \<longleftrightarrow>
   slots_outcome f t (VArr (normalize arr)) 0 (normalize arr) = Some r"
  unfolding parallel_def Let_def fst_conv promiseAllWithHoles_Fulfil_iff
  by (rule resolveSlots_outcome)

lemma resolveSlots_log_invoked:
  "Invoked t' v j a' \<in> set (concat (map slot_log (resolveSlots f t a i xs))) \<Longrightarrow>
   t' = t \<and> a' = a \<and> (\<exists>el. (j, el) \<in> set (present_from i xs) \<and> settle el = Fulfil v)"
proof (induction xs arbitrary: i)
  case Nil
  then show ?case by simp
next
  case (Cons x xs)
  show ?case
  proof (cases x)
    case None
    then show ?thesis using Cons by auto
  next
    case (Some el)
    obtain r l where rl: "resolveSlot f t a i el = (r, l)"
      by (cases "resolveSlot f t a i el")
    then have l: "l = snd (resolveSlot f t a i el)" by simp
    from Cons.prems Some rl
    consider "Invoked t' v j a' \<in> set l"
      | "Invoked t' v j a' \<in> set (concat (map slot_log (resolveSlots f t a (Suc i) xs)))"
      by auto
    then show ?thesis
    proof cases
      case 1
      then have "t' = t \<and> a' = a \<and> j = i \<and> settle el = Fulfil v"
        unfolding l by (rule resolveSlot_log_invoked)
      then show ?thesis
        using Some by auto
    next
      case 2
      from Cons.IH [OF this] Some show ?thesis by auto
    qed
  qed
qed

lemma resolveSlots_log_indices_sorted:
  "sorted_wrt (<) (invoked_indices (concat (map slot_log (resolveSlots f t a i xs))))
   \<and> (\<forall>j\<in>set (invoked_indices (concat (map slot_log (resolveSlots f t a i xs)))). i \<le> j)"
proof (induction xs arbitrary: i)
  case Nil
  show ?case by simp
next
  case (Cons x xs)
  show ?case
  proof (cases x)
    case None
    then show ?thesis using Cons.IH [of "Suc i"] by auto
  next
    case (Some el)
    obtain r l where rl: "resolveSlot f t a i el = (r, l)"
      by (cases "resolveSlot f t a i el")
    then have l: "l = snd (resolveSlot f t a i el)" by simp
    have "invoked_indices l = [] \<or> invoked_indices l = [i]"
      unfolding l resolveSlot_log by (auto split: outcome.splits completion.splits)
    then show ?thesis
      using Some rl Cons.IH [of "Suc i"] by (auto simp: invoked_indices_append Suc_le_eq)
  qed
qed

lemma resolveSlots_log_indices_full:
  "slots_outcome f t a i xs = Some r \<Longrightarrow>
   invoked_indices (concat (map slot_log (resolveSlots f t a i xs))) = map fst (present_from i xs)"
proof (induction xs arbitrary: i r)
  case Nil
  show ?case by simp
next
  case (Cons x xs)
  show ?case
  proof (cases x)
    case None
    then show ?thesis using Cons by auto
  next
    case (Some el)
    obtain ro l where rl: "resolveSlot f t a i el = (ro, l)"
      by (cases "resolveSlot f t a i el")
    then have l: "l = snd (resolveSlot f t a i el)" and ro: "ro = fst (resolveSlot f t a i el)"
      by simp_all
    from Cons.prems Some ro obtain w r' where w: "ro = Fulfil w"
      and r': "slots_outcome f t a (Suc i) xs = Some r'"
      by (auto split: outcome.splits)
    have "invoked_indices l = [i]"
      using w unfolding l ro resolveSlot_log resolveSlot_fst
      by (auto split: outcome.splits completion.splits)
    then show ?thesis
      using Some rl Cons.IH [OF r'] by (simp add: invoked_indices_append)
  qed
qed

lemma to_uint32_id: "n < 2 ^ 32 \<Longrightarrow> to_uint32 n = n"
  by (simp add: to_uint32_def)

lemma reduce_mapAF_run_slots:
  assumes "\<forall>x\<in>set R. stable x" "length R < 2 ^ 32"
  shows "reduce (mapAF_reducer order f t) (Fulfil (replicate (to_uint32 (length R)) None), []) R
           = run_slots f t (VArr R) 0 R"
proof -
  have "reduce_from 0 (mapAF_reducer order f t) R (Fulfil ([] @ replicate (length R) None), []) R
          = (case run_slots f t (VArr R) 0 R of
               (Reject e, l') \<Rightarrow> (Reject e, [] @ l')
             | (Fulfil ys, l') \<Rightarrow> (Fulfil ([] @ ys), [] @ l'))"
    by (rule reduce_from_mapAF_run_slots) simp_all
  then show ?thesis
    using assms(2)
    by (cases "run_slots f t (VArr R) 0 R" rule: prod.exhaust;
        cases "fst (run_slots f t (VArr R) 0 R)")
       (simp_all add: reduce_def to_uint32_id)
qed

lemma stable_resolved_view:
  "\<forall>x\<in>set xs. failure x = None \<Longrightarrow> \<forall>y\<in>set (map resolved_slot xs). stable y"
  by (auto simp: stable_resolved_slot)

lemma mapAF_series_resolved:
  assumes "\<forall>x\<in>set (normalize arr). failure x = None" "length (normalize arr) < 2 ^ 32"
  shows "mapAF_series order f t arr =
           (fst (run_slots f t (VArr (map resolved_slot (normalize arr))) 0
                   (map resolved_slot (normalize arr))),
            map (ElementResolved \<circ> fst) (present (normalize arr))
              @ snd (run_slots f t (VArr (map resolved_slot (normalize arr))) 0
                       (map resolved_slot (normalize arr))))"
proof -
  let ?xs = "normalize arr"
  let ?R = "map resolved_slot ?xs"
  have fst: "fst (resolveSerially 0 ?xs) = Fulfil ?R"
    using assms(1) by (simp add: resolveSerially_fst)
  then have "snd (resolveSerially 0 ?xs) = map (ElementResolved \<circ> fst) (present ?xs)"
    unfolding present_def by (rule resolveSerially_log_full)
  with fst have ser: "serial arr = (Fulfil ?R, map (ElementResolved \<circ> fst) (present ?xs))"
    by (simp add: serial_def prod_eq_iff)
  have "reduce (mapAF_reducer order f t) (Fulfil (replicate (to_uint32 (length ?R)) None), []) ?R
          = run_slots f t (VArr ?R) 0 ?R"
    using assms by (intro reduce_mapAF_run_slots stable_resolved_view) simp_all
  then show ?thesis
    unfolding mapAF_series_def ser
    by (cases "run_slots f t (VArr ?R) 0 ?R") simp
qed

lemma mapAF_series_rejected:
  assumes "\<not> (\<forall>x\<in>set (normalize arr). failure x = None)"
  shows "\<exists>e. mapAF_series order f t arr = (Reject e, snd (resolveSerially 0 (normalize arr)))"
proof -
  have "\<forall>r. fst (resolveSerially 0 (normalize arr)) \<noteq> Fulfil r"
    using assms by (simp add: resolveSerially_fst)
  then obtain e where "fst (resolveSerially 0 (normalize arr)) = Reject e"
    by (cases "fst (resolveSerially 0 (normalize arr))") auto
  then have "serial arr = (Reject e, snd (resolveSerially 0 (normalize arr)))"
    by (simp add: serial_def prod_eq_iff)
  then show ?thesis
    by (simp add: mapAF_series_def)
qed

lemma mapAF_series_fst:
  assumes "length (normalize arr) < 2 ^ 32"
  shows "fst (mapAF_series order f t arr) = Fulfil r \<longleftrightarrow>
         slots_outcome f t (VArr (map resolved_slot (normalize arr))) 0 (normalize arr) = Some r"
proof (cases "\<forall>x\<in>set (normalize arr). failure x = None")
  case True
  let ?R = "map resolved_slot (normalize arr)"
  have "fst (mapAF_series order f t arr) = fst (run_slots f t (VArr ?R) 0 ?R)"
    using True assms by (simp add: mapAF_series_resolved)
  also have "\<dots> = Fulfil r \<longleftrightarrow> slots_outcome f t (VArr ?R) 0 ?R = Some r"
    using True by (intro run_slots_fst stable_resolved_view)
  also have "slots_outcome f t (VArr ?R) 0 ?R = slots_outcome f t (VArr ?R) 0 (normalize arr)"
    using True by (rule slots_outcome_resolved)
  finally show ?thesis .
next
  case False
  then obtain x where "x \<in> set (normalize arr)" "failure x \<noteq> None"
    by blast
  then have "slots_outcome f t (VArr (map resolved_slot (normalize arr))) 0 (normalize arr) = None"
    by (rule slots_outcome_failure)
  moreover from mapAF_series_rejected [OF False]
  have "\<forall>r. fst (mapAF_series order f t arr) \<noteq> Fulfil r"
    by (metis fst_conv outcome.distinct(1))
  ultimately show ?thesis by simp
qed

lemma mapAF_Fn:
  assumes "settle (data this) = Fulfil arr" "permissiveIsArrayLike arr"
  shows "mapAF order this (Fn f) t =
           (this\<lparr>data := promise_of (map_outcome VArr
                     (fst (if inSeries this then mapAF_series order f t arr
                           else parallel order arr f t)))\<rparr>,
            snd (if inSeries this then mapAF_series order f t arr else parallel order arr f t))"
  using assms
  by (cases "if inSeries this then mapAF_series order f t arr else parallel order arr f t")
     (auto simp: mapAF_def then_AF_def)

lemma settle_promise_of_VArr:
  "settle (promise_of (map_outcome VArr r)) = map_outcome VArr r"
  by (cases r) simp_all

lemma present_from_indices:
  "map fst (present_from i xs) = filter (\<lambda>j. xs ! (j - i) \<noteq> None) [i..<i + length xs]"
proof (induction xs arbitrary: i)
  case Nil
  show ?case by simp
next
  case (Cons x xs)
  have shift: "filter (\<lambda>j. (x # xs) ! (j - i) \<noteq> None) [Suc i..<Suc i + length xs]
               = filter (\<lambda>j. xs ! (j - Suc i) \<noteq> None) [Suc i..<Suc i + length xs]"
    by (rule filter_cong) (auto simp: nth_Cons' Suc_le_eq)
  have upt: "[i..<i + length (x # xs)] = i # [Suc i..<Suc i + length xs]"
    by (subst upt_rec) simp
  show ?case
    unfolding upt using shift Cons.IH [of "Suc i"] by (cases x) simp_all
qed

lemma present_indices:
  "map fst (present xs) = filter (\<lambda>j. xs ! j \<noteq> None) [0..<length xs]"
  using present_from_indices [of 0 xs] by (simp add: present_def)

lemma mapAF_parallel_fulfilled:
  assumes "settle (data this) = Fulfil arr" "permissiveIsArrayLike arr" "\<not> inSeries this"
    and "slots_outcome f t (VArr (normalize arr)) 0 (normalize arr) = Some r"
  shows "mapAF order this (Fn f) t =
           (this\<lparr>data := VFulfilled (VArr r)\<rparr>,
            concat (map slot_log (resolveSlots f t (VArr (normalize arr)) 0 (normalize arr))))"
proof -
  have "fst (parallel order arr f t) = Fulfil r"
    using assms(4) by (simp add: parallel_fst)
  moreover have "snd (parallel order arr f t)
                   = concat (map slot_log (resolveSlots f t (VArr (normalize arr)) 0 (normalize arr)))"
    by (simp add: parallel_def Let_def)
  ultimately show ?thesis
    using assms(1-3) by (simp add: mapAF_Fn)
qed

lemma mapAF_serial_resolved:
  assumes "settle (data this) = Fulfil arr" "permissiveIsArrayLike arr" "inSeries this"
    and "\<forall>x\<in>set (normalize arr). failure x = None" "length (normalize arr) < 2 ^ 32"
  shows "mapAF order this (Fn f) t =
           (this\<lparr>data := promise_of (map_outcome VArr
                     (fst (run_slots f t (VArr (map resolved_slot (normalize arr))) 0
                             (map resolved_slot (normalize arr)))))\<rparr>,
            map (ElementResolved \<circ> fst) (present (normalize arr))
              @ snd (run_slots f t (VArr (map resolved_slot (normalize arr))) 0
                       (map resolved_slot (normalize arr))))"
  using assms by (simp add: mapAF_Fn mapAF_series_resolved)

lemmas run_slots_eval = run_slots.simps(1) run_slots_None run_slots_Some

lemma then_AF_Inl:
  "settle (data this) = Fulfil v \<Longrightarrow> k v = Inl e \<Longrightarrow> then_AF this k = (this\<lparr>data := VRejected e\<rparr>, [])"
  by (simp add: then_AF_def)

lemma then_AF_promise:
  "\<exists>r. data (fst (then_AF this k)) = promise_of r"
proof (cases "settle (data this)")
  case (Reject e)
  then have "data (fst (then_AF this k)) = promise_of (Reject e)"
    by (simp add: then_AF_def)
  then show ?thesis ..
next
  case (Fulfil v)
  show ?thesis
  proof (cases "k v")
    case (Inl e)
    then have "data (fst (then_AF this k)) = promise_of (Reject e)"
      using Fulfil by (simp add: then_AF_def)
    then show ?thesis ..
  next
    case (Inr p)
    then have "data (fst (then_AF this k)) = promise_of (fst p)"
      using Fulfil by (cases p) (simp add: then_AF_def)
    then show ?thesis ..
  qed
qed

subsection \<open>Rejections raised by the operations themselves\<close>

lemma mapAF_ineligible:
  "settle (data this) = Fulfil v \<Longrightarrow> \<not> permissiveIsArrayLike v \<Longrightarrow>
   mapAF order this callback thisArg =
     (this\<lparr>data := VRejected (VTypeError
        (''mapAF cannot be called on '' @ toString v
           @ '', only on an Array or array-like Object''))\<rparr>, [])"
  by (simp add: mapAF_def then_AF_def)

lemma forEachAF_ineligible:
  "settle (data this) = Fulfil v \<Longrightarrow> \<not> permissiveIsArrayLike v \<Longrightarrow>
   forEachAF order this callback thisArg =
     (this\<lparr>data := VRejected (VTypeError
        (''forEachAF cannot be called on '' @ toString v
           @ '', only on an Array or array-like Object''))\<rparr>, [])"
  by (simp add: forEachAF_def then_AF_def)

lemma mapAF_NotFn:
  "settle (data this) = Fulfil arr \<Longrightarrow> permissiveIsArrayLike arr \<Longrightarrow>
   mapAF order this (NotFn c) thisArg =
     (this\<lparr>data := VRejected (VTypeError (toString c @ '' is not a function''))\<rparr>, [])"
  by (simp add: mapAF_def then_AF_def)

lemma forEachAF_NotFn:
  "settle (data this) = Fulfil arr \<Longrightarrow> permissiveIsArrayLike arr \<Longrightarrow>
   forEachAF order this (NotFn c) thisArg =
     (this\<lparr>data := VRejected (VTypeError (toString c @ '' is not a function''))\<rparr>, [])"
  by (simp add: forEachAF_def then_AF_def)

subsection \<open>forEachAF\<close>

lemma forEachAF_reducer_Reject:
  "forEachAF_reducer f t (Reject e, l) el i arr = (Reject e, l)"
  by (simp add: forEachAF_reducer_def)

lemma forEachAF_reducer_Fulfil:
  "f t el i (VArr arr) = Return rv \<Longrightarrow> settle rv = Fulfil w \<Longrightarrow>
   forEachAF_reducer f t (Fulfil u, l) el i arr
     = (Fulfil w, l @ [Invoked t el i (VArr arr), ResultResolved i])"
  by (simp add: forEachAF_reducer_def settle_Promise_resolve)

lemma forEachAF_reducer_Throw:
  "f t el i (VArr arr) = Throw e \<Longrightarrow>
   forEachAF_reducer f t (Fulfil u, l) el i arr = (Reject e, l @ [Invoked t el i (VArr arr)])"
  by (simp add: forEachAF_reducer_def)

lemma forEachAF_reducer_Return_Reject:
  "f t el i (VArr arr) = Return rv \<Longrightarrow> settle rv = Reject e \<Longrightarrow>
   forEachAF_reducer f t (Fulfil u, l) el i arr = (Reject e, l @ [Invoked t el i (VArr arr)])"
  by (simp add: forEachAF_reducer_def settle_Promise_resolve)

lemma reduce_from_forEachAF_Reject:
  "reduce_from i (forEachAF_reducer f t) arr (Reject e, l) xs = (Reject e, l)"
proof (induction xs arbitrary: i)
  case Nil
  show ?case by simp
next
  case (Cons x xs)
  then show ?case by (cases x) (simp_all add: forEachAF_reducer_Reject)
qed

lemma reduce_from_forEachAF_run_slots:
  "\<exists>u'. reduce_from i (forEachAF_reducer f t) arr (Fulfil u, l) xs =
          (case run_slots f t (VArr arr) i xs of
             (Reject e, l') \<Rightarrow> (Reject e, l @ l')
           | (Fulfil ys, l') \<Rightarrow> (Fulfil u', l @ l'))"
proof (induction xs arbitrary: i u l)
  case Nil
  show ?case by simp
next
  case (Cons x xs)
  show ?case
  proof (cases x)
    case None
    from Cons.IH [of "Suc i" u l] obtain u' where
      "reduce_from (Suc i) (forEachAF_reducer f t) arr (Fulfil u, l) xs =
          (case run_slots f t (VArr arr) (Suc i) xs of
             (Reject e, l') \<Rightarrow> (Reject e, l @ l')
           | (Fulfil ys, l') \<Rightarrow> (Fulfil u', l @ l'))"
      by blast
    then have "reduce_from i (forEachAF_reducer f t) arr (Fulfil u, l) (x # xs) =
          (case run_slots f t (VArr arr) i (x # xs) of
             (Reject e, l') \<Rightarrow> (Reject e, l @ l')
           | (Fulfil ys, l') \<Rightarrow> (Fulfil u', l @ l'))"
      using None
      by (cases "run_slots f t (VArr arr) (Suc i) xs" rule: prod.exhaust;
          cases "fst (run_slots f t (VArr arr) (Suc i) xs)") (simp_all add: run_slots_None)
    then show ?thesis ..
  next
    case (Some el)
    show ?thesis
    proof (cases "f t el i (VArr arr)")
      case (Throw e)
      then show ?thesis
        using Some
        by (simp add: forEachAF_reducer_Throw reduce_from_forEachAF_Reject run_slots_Some)
    next
      case (Return rv)
      show ?thesis
      proof (cases "settle rv")
        case (Reject e)
        then show ?thesis
          using Some Return
          by (simp add: forEachAF_reducer_Return_Reject reduce_from_forEachAF_Reject run_slots_Some)
      next
        case (Fulfil w)
        let ?l = "l @ [Invoked t el i (VArr arr), ResultResolved i]"
        from Cons.IH [of "Suc i" w ?l] obtain u' where
          "reduce_from (Suc i) (forEachAF_reducer f t) arr (Fulfil w, ?l) xs =
             (case run_slots f t (VArr arr) (Suc i) xs of
                (Reject e, l') \<Rightarrow> (Reject e, ?l @ l')
              | (Fulfil ys, l') \<Rightarrow> (Fulfil u', ?l @ l'))"
          by blast
        then have "reduce_from i (forEachAF_reducer f t) arr (Fulfil u, l) (x # xs) =
          (case run_slots f t (VArr arr) i (x # xs) of
             (Reject e, l') \<Rightarrow> (Reject e, l @ l')
           | (Fulfil ys, l') \<Rightarrow> (Fulfil u', l @ l'))"
          using Some Return Fulfil
          by (cases "run_slots f t (VArr arr) (Suc i) xs" rule: prod.exhaust;
              cases "fst (run_slots f t (VArr arr) (Suc i) xs)")
             (simp_all add: forEachAF_reducer_Fulfil run_slots_Some)
        then show ?thesis ..
      qed
    qed
  qed
qed

lemma forEachAF_series_resolved:
  assumes "\<forall>x\<in>set (normalize arr). failure x = None"
  shows "\<exists>u. forEachAF_series f t arr =
           (case fst (run_slots f t (VArr (map resolved_slot (normalize arr))) 0
                        (map resolved_slot (normalize arr))) of
              Reject e \<Rightarrow> Reject e
            | Fulfil ys \<Rightarrow> Fulfil u,
            map (ElementResolved \<circ> fst) (present (normalize arr))
              @ snd (run_slots f t (VArr (map resolved_slot (normalize arr))) 0
                       (map resolved_slot (normalize arr))))"
proof -
  let ?xs = "normalize arr"
  let ?R = "map resolved_slot ?xs"
  have fst: "fst (resolveSerially 0 ?xs) = Fulfil ?R"
    using assms by (simp add: resolveSerially_fst)
  then have "snd (resolveSerially 0 ?xs) = map (ElementResolved \<circ> fst) (present ?xs)"
    unfolding present_def by (rule resolveSerially_log_full)
  with fst have ser: "serial arr = (Fulfil ?R, map (ElementResolved \<circ> fst) (present ?xs))"
    by (simp add: serial_def prod_eq_iff)
  from reduce_from_forEachAF_run_slots [of 0 f t ?R VUndefined "[]" ?R]
  have "\<exists>u. reduce (forEachAF_reducer f t) (Fulfil VUndefined, []) ?R =
          (case run_slots f t (VArr ?R) 0 ?R of
             (Reject e, l') \<Rightarrow> (Reject e, l')
           | (Fulfil ys, l') \<Rightarrow> (Fulfil u, l'))"
    unfolding reduce_def by (auto split: prod.splits outcome.splits)
  then obtain u where
    u: "reduce (forEachAF_reducer f t) (Fulfil VUndefined, []) ?R =
          (case run_slots f t (VArr ?R) 0 ?R of
             (Reject e, l') \<Rightarrow> (Reject e, l')
           | (Fulfil ys, l') \<Rightarrow> (Fulfil u, l'))"
    by blast
  have "forEachAF_series f t arr =
           (case fst (run_slots f t (VArr ?R) 0 ?R) of
              Reject e \<Rightarrow> Reject e
            | Fulfil ys \<Rightarrow> Fulfil u,
            map (ElementResolved \<circ> fst) (present ?xs) @ snd (run_slots f t (VArr ?R) 0 ?R))"
    unfolding forEachAF_series_def ser using u
    by (cases "run_slots f t (VArr ?R) 0 ?R" rule: prod.exhaust;
        cases "fst (run_slots f t (VArr ?R) 0 ?R)") simp_all
  then show ?thesis ..
qed

lemma forEachAF_series_fulfilled:
  "(\<exists>u. fst (forEachAF_series f t arr) = Fulfil u) \<longleftrightarrow>
   (\<exists>ys. slots_outcome f t (VArr (map resolved_slot (normalize arr))) 0 (normalize arr) = Some ys)"
proof (cases "\<forall>x\<in>set (normalize arr). failure x = None")
  case True
  let ?R = "map resolved_slot (normalize arr)"
  from forEachAF_series_resolved [OF True, of f t] obtain u where
    "fst (forEachAF_series f t arr) =
       (case fst (run_slots f t (VArr ?R) 0 ?R) of Reject e \<Rightarrow> Reject e | Fulfil ys \<Rightarrow> Fulfil u)"
    by (metis fst_conv)
  then have "(\<exists>u. fst (forEachAF_series f t arr) = Fulfil u)
               \<longleftrightarrow> (\<exists>ys. fst (run_slots f t (VArr ?R) 0 ?R) = Fulfil ys)"
    by (cases "fst (run_slots f t (VArr ?R) 0 ?R)") simp_all
  also have "\<dots> \<longleftrightarrow> (\<exists>ys. slots_outcome f t (VArr ?R) 0 ?R = Some ys)"
    using run_slots_fst [OF stable_resolved_view [OF True], of f t "VArr ?R" 0] by simp
  also have "slots_outcome f t (VArr ?R) 0 ?R = slots_outcome f t (VArr ?R) 0 (normalize arr)"
    using True by (rule slots_outcome_resolved)
  finally show ?thesis .
next
  case False
  then obtain x where "x \<in> set (normalize arr)" "failure x \<noteq> None"
    by blast
  then have "slots_outcome f t (VArr (map resolved_slot (normalize arr))) 0 (normalize arr) = None"
    by (rule slots_outcome_failure)
  moreover have "\<forall>r. fst (resolveSerially 0 (normalize arr)) \<noteq> Fulfil r"
    using False by (simp add: resolveSerially_fst)
  then obtain e where "fst (resolveSerially 0 (normalize arr)) = Reject e"
    by (cases "fst (resolveSerially 0 (normalize arr))") auto
  then have "serial arr = (Reject e, snd (resolveSerially 0 (normalize arr)))"
    by (simp add: serial_def prod_eq_iff)
  then have "fst (forEachAF_series f t arr) = Reject e"
    by (simp add: forEachAF_series_def)
  ultimately show ?thesis by simp
qed

lemma then_p_undefined_fst:
  "fst (then_p X (\<lambda>u. (Fulfil VUndefined, []))) =
     (case fst X of Reject e \<Rightarrow> Reject e | Fulfil a \<Rightarrow> Fulfil VUndefined)"
  by (cases X rule: prod.exhaust; cases "fst X") simp_all

lemma forEachAF_Fn:
  assumes "settle (data this) = Fulfil arr" "permissiveIsArrayLike arr"
  shows "fst (forEachAF order this (Fn f) t) =
           this\<lparr>data := promise_of
             (case fst (if inSeries this then forEachAF_series f t arr
                        else map_run VArr (parallel order arr f t)) of
                Reject e \<Rightarrow> Reject e
              | Fulfil a \<Rightarrow> Fulfil VUndefined)\<rparr>"
proof -
  let ?X = "if inSeries this then forEachAF_series f t arr else map_run VArr (parallel order arr f t)"
  obtain r l where rl: "then_p ?X (\<lambda>u. (Fulfil VUndefined, [])) = (r, l)"
    by (cases "then_p ?X (\<lambda>u. (Fulfil VUndefined, []))")
  then have "r = (case fst ?X of Reject e \<Rightarrow> Reject e | Fulfil a \<Rightarrow> Fulfil VUndefined)"
    using then_p_undefined_fst [of ?X] by simp
  moreover have "fst (forEachAF order this (Fn f) t) = this\<lparr>data := promise_of r\<rparr>"
    using assms rl by (simp add: forEachAF_def then_AF_def)
  ultimately show ?thesis by simp
qed

lemma double_total: "\<exists>rv w. double t el j a = Return rv \<and> settle rv = Fulfil w"
  by (cases el) (simp_all add: double_def)

lemma total_callable_slots:
  assumes "\<forall>x\<in>set xs. failure x = None"
    and "\<And>el j a. \<exists>rv w. f t el j a = Return rv \<and> settle rv = Fulfil w"
  shows "\<forall>j<length xs. \<forall>el. xs ! j = Some el \<longrightarrow>
           (\<exists>v. settle el = Fulfil v
              \<and> (\<forall>a. \<exists>rv w. f t v j a = Return rv \<and> settle rv = Fulfil w))"
proof (intro allI impI)
  fix j el
  assume "j < length xs" "xs ! j = Some el"
  then have "Some el \<in> set xs"
    by (metis nth_mem)
  with assms(1) have "failure (Some el) = None"
    by blast
  then obtain v where "settle el = Fulfil v"
    by (cases "settle el") simp_all
  with assms(2) show "\<exists>v. settle el = Fulfil v
              \<and> (\<forall>a. \<exists>rv w. f t v j a = Return rv \<and> settle rv = Fulfil w)"
    by blast
qed

subsection \<open>The log of mapAF\<close>

lemma resolveSerially_log_no_invocation:
  "Invoked t' v j a' \<notin> set (snd (resolveSerially i xs))"
proof -
  obtain rest where
    "map (ElementResolved \<circ> fst) (present_from i xs) = snd (resolveSerially i xs) @ rest"
    using resolveSerially_log_prefix by blast
  then have "set (snd (resolveSerially i xs)) \<subseteq> set (map (ElementResolved \<circ> fst) (present_from i xs))"
    by (metis Un_upper1 set_append)
  then show ?thesis by auto
qed

lemma invoked_indices_resolveSerially:
  "invoked_indices (snd (resolveSerially i xs)) = []"
proof -
  have "\<not> (\<exists>j. j \<in> set (invoked_indices (snd (resolveSerially i xs))))"
    unfolding invoked_indices_mem using resolveSerially_log_no_invocation by blast
  then show ?thesis by (cases "invoked_indices (snd (resolveSerially i xs))") auto
qed

lemma mapAF_series_log_invoked:
  assumes "length (normalize arr) < 2 ^ 32"
    and "Invoked t' v j a' \<in> set (snd (mapAF_series order f t arr))"
  shows "(\<forall>x\<in>set (normalize arr). failure x = None) \<and> t' = t
         \<and> a' = VArr (map resolved_slot (normalize arr))
         \<and> (\<exists>el. (j, el) \<in> set (present (normalize arr)) \<and> settle el = Fulfil v)"
proof (cases "\<forall>x\<in>set (normalize arr). failure x = None")
  case True
  let ?R = "map resolved_slot (normalize arr)"
  from assms(2) have "Invoked t' v j a' \<in> set (snd (run_slots f t (VArr ?R) 0 ?R))"
    unfolding mapAF_series_resolved [OF True assms(1)] by auto
  then have "t' = t \<and> a' = VArr ?R \<and> (j, v) \<in> set (present_from 0 ?R)"
    by (rule run_slots_log_invoked)
  then show ?thesis
    using True present_from_resolved_mem [of j v 0 "normalize arr"] by (simp add: present_def)
next
  case False
  from mapAF_series_rejected [OF False, of order f t] assms(2)
  have "Invoked t' v j a' \<in> set (snd (resolveSerially 0 (normalize arr)))"
    by auto
  then show ?thesis
    using resolveSerially_log_no_invocation by blast
qed

lemma mapAF_log_invoked:
  assumes "settle (data this) = Fulfil arr" "permissiveIsArrayLike arr"
    and "length (normalize arr) < 2 ^ 32"
    and "Invoked t' v j a' \<in> set (snd (mapAF order this (Fn f) t))"
  shows "t' = t
         \<and> a' = (if inSeries this then VArr (map resolved_slot (normalize arr))
                 else VArr (normalize arr))
         \<and> (inSeries this \<longrightarrow> (\<forall>x\<in>set (normalize arr). failure x = None))
         \<and> j < length (normalize arr)
         \<and> (\<exists>el. normalize arr ! j = Some el \<and> settle el = Fulfil v)"
proof (cases "inSeries this")
  case True
  with assms have "Invoked t' v j a' \<in> set (snd (mapAF_series order f t arr))"
    by (simp add: mapAF_Fn)
  from mapAF_series_log_invoked [OF assms(3) this] True show ?thesis
    by (auto simp: present_mem)
next
  case False
  with assms
  have "Invoked t' v j a' \<in> set (concat (map slot_log
          (resolveSlots f t (VArr (normalize arr)) 0 (normalize arr))))"
    by (simp add: mapAF_Fn parallel_def Let_def)
  from resolveSlots_log_invoked [OF this] False show ?thesis
    by (auto simp: present_from_mem)
qed

lemma mapAF_log_indices:
  assumes "settle (data this) = Fulfil arr" "permissiveIsArrayLike arr"
    and "length (normalize arr) < 2 ^ 32"
  shows "distinct (invoked_indices (snd (mapAF order this (Fn f) t)))"
proof (cases "inSeries this")
  case False
  then have "snd (mapAF order this (Fn f) t)
               = concat (map slot_log (resolveSlots f t (VArr (normalize arr)) 0 (normalize arr)))"
    using assms by (simp add: mapAF_Fn parallel_def Let_def)
  then show ?thesis
    using resolveSlots_log_indices_sorted [of f t "VArr (normalize arr)" 0 "normalize arr"]
          strict_sorted_iff by auto
next
  case True
  then have log: "snd (mapAF order this (Fn f) t) = snd (mapAF_series order f t arr)"
    using assms by (simp add: mapAF_Fn)
  show ?thesis
  proof (cases "\<forall>x\<in>set (normalize arr). failure x = None")
    case False
    from mapAF_series_rejected [OF False, of order f t]
    show ?thesis
      unfolding log by (auto simp: invoked_indices_resolveSerially)
  next
    case True
    let ?R = "map resolved_slot (normalize arr)"
    obtain rest where
      rest: "concat (map (\<lambda>(j, el). [Invoked t el j (VArr ?R), ResultResolved j]) (present_from 0 ?R))
          = snd (run_slots f t (VArr ?R) 0 ?R) @ rest"
      using run_slots_log_prefix by blast
    have "map fst (present_from 0 ?R)
            = invoked_indices (snd (run_slots f t (VArr ?R) 0 ?R)) @ invoked_indices rest"
      using arg_cong [OF rest, of invoked_indices]
      by (simp only: invoked_indices_ideal invoked_indices_append)
    then have "distinct (invoked_indices (snd (run_slots f t (VArr ?R) 0 ?R)))"
      using present_from_distinct [of 0 ?R] by simp
    then show ?thesis
      unfolding log mapAF_series_resolved [OF True assms(3)]
      by (simp add: invoked_indices_append invoked_indices_ElementResolved)
  qed
qed

lemma mapAF_fulfilled:
  assumes "settle (data this) = Fulfil arr" "permissiveIsArrayLike arr"
    and "length (normalize arr) < 2 ^ 32"
  shows "settle (data (fst (mapAF order this (Fn f) t))) = Fulfil r \<longleftrightarrow>
         (\<exists>ys. r = VArr ys \<and>
            slots_outcome f t (if inSeries this then VArr (map resolved_slot (normalize arr))
                               else VArr (normalize arr)) 0 (normalize arr) = Some ys)"
proof -
  let ?X = "if inSeries this then mapAF_series order f t arr else parallel order arr f t"
  have "settle (data (fst (mapAF order this (Fn f) t))) = map_outcome VArr (fst ?X)"
    using assms by (simp add: mapAF_Fn settle_promise_of_VArr)
  moreover have "map_outcome VArr (fst ?X) = Fulfil r \<longleftrightarrow> (\<exists>ys. r = VArr ys \<and> fst ?X = Fulfil ys)"
    by (auto simp: map_outcome_Fulfil_iff)
  moreover have "fst ?X = Fulfil ys \<longleftrightarrow>
      slots_outcome f t (if inSeries this then VArr (map resolved_slot (normalize arr))
                         else VArr (normalize arr)) 0 (normalize arr) = Some ys" for ys
    using assms(3) by (simp add: mapAF_series_fst parallel_fst)
  ultimately show ?thesis by simp
qed

lemma mapAF_fulfilled_indices:
  assumes "settle (data this) = Fulfil arr" "permissiveIsArrayLike arr"
    and "length (normalize arr) < 2 ^ 32"
    and "settle (data (fst (mapAF order this (Fn f) t))) = Fulfil r"
  shows "invoked_indices (snd (mapAF order this (Fn f) t)) = map fst (present (normalize arr))"
proof -
  from assms(4) obtain ys where
    ys: "slots_outcome f t (if inSeries this then VArr (map resolved_slot (normalize arr))
                            else VArr (normalize arr)) 0 (normalize arr) = Some ys"
    unfolding mapAF_fulfilled [OF assms(1-3)] by blast
  show ?thesis
  proof (cases "inSeries this")
    case False
    then have "snd (mapAF order this (Fn f) t)
               = concat (map slot_log (resolveSlots f t (VArr (normalize arr)) 0 (normalize arr)))"
      using assms by (simp add: mapAF_Fn parallel_def Let_def)
    then show ?thesis
      using ys False resolveSlots_log_indices_full [of f t "VArr (normalize arr)" 0 "normalize arr" ys]
      by (simp add: present_def)
  next
    case True
    let ?R = "map resolved_slot (normalize arr)"
    have ok: "\<forall>x\<in>set (normalize arr). failure x = None"
      using ys slots_outcome_failure by (metis option.distinct(1))
    have "fst (mapAF_series order f t arr) = Fulfil ys"
      using ys True assms(3) by (simp add: mapAF_series_fst)
    then have "fst (run_slots f t (VArr ?R) 0 ?R) = Fulfil ys"
      unfolding mapAF_series_resolved [OF ok assms(3)] by simp
    then have "snd (run_slots f t (VArr ?R) 0 ?R)
                 = concat (map (\<lambda>(j, el). [Invoked t el j (VArr ?R), ResultResolved j])
                             (present_from 0 ?R))"
      by (rule run_slots_log_full)
    then have "invoked_indices (snd (mapAF_series order f t arr)) = map fst (present_from 0 ?R)"
      unfolding mapAF_series_resolved [OF ok assms(3)]
      by (simp add: invoked_indices_append invoked_indices_ElementResolved invoked_indices_ideal)
    then show ?thesis
      using True assms ok by (simp add: mapAF_Fn present_from_resolved_fst present_def)
  qed
qed

lemma mapAF_double_sparse:
  "fst (mapAF order \<lparr>data = VArr [None, None, Some (VNum 1), None, Some (VNum 2), None, None],
                      inSeries = s\<rparr> (Fn double) thisArg)
     = \<lparr>data = VFulfilled (VArr [None, None, Some (VNum 2), None, Some (VNum 4), None, None]),
        inSeries = s\<rparr>
   \<and> invoked_indices (snd (mapAF order
         \<lparr>data = VArr [None, None, Some (VNum 1), None, Some (VNum 2), None, None],
          inSeries = s\<rparr> (Fn double) thisArg)) = [2, 4]"
proof (cases s)
  case True
  then show ?thesis
    by (subst (1 2) mapAF_serial_resolved
          [where arr = "VArr [None, None, Some (VNum 1), None, Some (VNum 2), None, None]"])
       (simp_all add: present_def run_slots_eval double_def)
next
  case False
  then show ?thesis
    by (subst (1 2) mapAF_parallel_fulfilled
          [where r = "[None, None, Some (VNum 2), None, Some (VNum 4), None, None]"
             and arr = "VArr [None, None, Some (VNum 1), None, Some (VNum 2), None, None]"])
       (simp_all add: resolveSlot_def double_def)
qed

lemma mapAF_add_previous:
  "fst (mapAF order \<lparr>data = VArr [Some (VNum 1), Some (VNum 2), Some (VNum 3)], inSeries = s\<rparr>
          (Fn add_previous) thisArg)
     = \<lparr>data = VFulfilled (VArr [Some (VNum 1), Some (VNum 3), Some (VNum 5)]), inSeries = s\<rparr>"
proof (cases s)
  case True
  then show ?thesis
    by (subst mapAF_serial_resolved
          [where arr = "VArr [Some (VNum 1), Some (VNum 2), Some (VNum 3)]"])
       (simp_all add: present_def run_slots_eval add_previous_def js_index_def)
next
  case False
  then show ?thesis
    by (subst mapAF_parallel_fulfilled
          [where r = "[Some (VNum 1), Some (VNum 3), Some (VNum 5)]"
             and arr = "VArr [Some (VNum 1), Some (VNum 2), Some (VNum 3)]"])
       (simp_all add: resolveSlot_def add_previous_def js_index_def)
qed

subsection \<open>Examples and wrapped elements\<close>

lemma mapAF_series_double_deferred:
  "snd (mapAF order (series (AsyncAF (VArr [Some (VFulfilled (VNum 1)), Some (VFulfilled (VNum 2))])))
          (Fn double) (VStr ''ctx''))
     = [ElementResolved 0, ElementResolved 1,
        Invoked (VStr ''ctx'') (VNum 1) 0 (VArr [Some (VNum 1), Some (VNum 2)]), ResultResolved 0,
        Invoked (VStr ''ctx'') (VNum 2) 1 (VArr [Some (VNum 1), Some (VNum 2)]), ResultResolved 1]"
  by (subst mapAF_serial_resolved
        [where arr = "VArr [Some (VFulfilled (VNum 1)), Some (VFulfilled (VNum 2))]"])
     (simp_all add: AsyncAF_def series_def present_def run_slots_eval double_def)

lemma resolveSerially_wrapped:
  "resolveSerially i (map (map_option VFulfilled) xs) = resolveSerially i xs"
proof (induction xs arbitrary: i)
  case Nil
  show ?case by simp
next
  case (Cons x xs)
  show ?case
    using Cons.IH [of "Suc i"]
    by (cases x) (simp_all add: resolveSerially_None resolveSerially_Some split: outcome.splits)
qed

lemma mapAF_series_wrapped:
  "normalize arr' = map (map_option VFulfilled) (normalize arr) \<Longrightarrow>
   mapAF_series order f t arr' = mapAF_series order f t arr"
  by (simp add: mapAF_series_def serial_def resolveSerially_wrapped)

lemma resolveSlot_wrapped:
  assumes "\<And>el j. f t el j a' = f t el j a"
  shows "fst (resolveSlot f t a' i (VFulfilled el)) = fst (resolveSlot f t a i el)"
    and "map stripped (snd (resolveSlot f t a' i (VFulfilled el)))
           = map stripped (snd (resolveSlot f t a i el))"
  using assms
  by (simp_all add: resolveSlot_fst resolveSlot_log split: outcome.splits completion.splits)

lemma resolveSlots_wrapped:
  assumes "\<And>el j. f t el j a' = f t el j a"
  shows "map (map_option (promise_of \<circ> fst)) (resolveSlots f t a' i (map (map_option VFulfilled) xs))
           = map (map_option (promise_of \<circ> fst)) (resolveSlots f t a i xs)
       \<and> map stripped (concat (map slot_log (resolveSlots f t a' i (map (map_option VFulfilled) xs))))
           = map stripped (concat (map slot_log (resolveSlots f t a i xs)))"
proof (induction xs arbitrary: i)
  case Nil
  show ?case by simp
next
  case (Cons x xs)
  show ?case
  proof (cases x)
    case None
    then show ?thesis using Cons.IH [of "Suc i"] by simp
  next
    case (Some el)
    obtain r l where rl: "resolveSlot f t a i el = (r, l)"
      by (cases "resolveSlot f t a i el")
    obtain r' l' where rl': "resolveSlot f t a' i (VFulfilled el) = (r', l')"
      by (cases "resolveSlot f t a' i (VFulfilled el)")
    from resolveSlot_wrapped [of f t a' a i el, OF assms] rl rl'
    have "r' = r" "map stripped l' = map stripped l"
      by simp_all
    then show ?thesis
      using Some rl rl' Cons.IH [of "Suc i"] by simp
  qed
qed

lemma parallel_wrapped:
  assumes "normalize arr' = map (map_option VFulfilled) (normalize arr)"
    and "\<And>el j. f t el j (VArr (normalize arr')) = f t el j (VArr (normalize arr))"
  shows "fst (parallel order arr' f t) = fst (parallel order arr f t)"
    and "map stripped (snd (parallel order arr' f t)) = map stripped (snd (parallel order arr f t))"
proof -
  from resolveSlots_wrapped [of f t "VArr (normalize arr')" "VArr (normalize arr)" 0 "normalize arr",
         OF assms(2)]
  have a: "map (map_option (promise_of \<circ> fst))
             (resolveSlots f t (VArr (normalize arr')) 0 (normalize arr'))
           = map (map_option (promise_of \<circ> fst))
               (resolveSlots f t (VArr (normalize arr)) 0 (normalize arr))"
    and b: "map stripped (concat (map slot_log
              (resolveSlots f t (VArr (normalize arr')) 0 (normalize arr'))))
           = map stripped (concat (map slot_log
               (resolveSlots f t (VArr (normalize arr)) 0 (normalize arr))))"
    unfolding assms(1) [symmetric] by simp_all
  show "fst (parallel order arr' f t) = fst (parallel order arr f t)"
    using a by (simp add: parallel_def Let_def)
  show "map stripped (snd (parallel order arr' f t)) = map stripped (snd (parallel order arr f t))"
    using b by (simp add: parallel_def Let_def)
qed

lemma double_ignores_collection: "double t el j a = double t el j b"
  by (simp add: double_def)

lemma mapAF_peek_concrete:
  "fst (mapAF order (AsyncAF (VArr [Some (VNum 1)])) (Fn peek) thisArg)
     = \<lparr>data = VFulfilled (VArr [Some (VStr ''resolved'')]), inSeries = False\<rparr>"
  by (subst mapAF_parallel_fulfilled
        [where r = "[Some (VStr ''resolved'')]" and arr = "VArr [Some (VNum 1)]"])
     (simp_all add: AsyncAF_def resolveSlot_def peek_def js_index_def)

lemma mapAF_peek_deferred:
  "fst (mapAF order (AsyncAF (VArr [Some (VFulfilled (VNum 1))])) (Fn peek) thisArg)
     = \<lparr>data = VFulfilled (VArr [Some (VStr ''deferred'')]), inSeries = False\<rparr>"
  by (subst mapAF_parallel_fulfilled
        [where r = "[Some (VStr ''deferred'')]" and arr = "VArr [Some (VFulfilled (VNum 1))]"])
     (simp_all add: AsyncAF_def resolveSlot_def peek_def js_index_def)

lemma mapAF_series_peek_deferred:
  "fst (mapAF order (series (AsyncAF (VArr [Some (VFulfilled (VNum 1))]))) (Fn peek) thisArg)
     = \<lparr>data = VFulfilled (VArr [Some (VStr ''resolved'')]), inSeries = True\<rparr>"
  by (subst mapAF_serial_resolved [where arr = "VArr [Some (VFulfilled (VNum 1))]"])
     (simp_all add: AsyncAF_def series_def present_def run_slots_eval peek_def js_index_def)

subsection \<open>The two modes and the collection handed to the callable\<close>

text \<open>
  The PARALLEL resolver hands the view it was given to the callable, the SERIAL branch of
  \<^verbatim>\<open>mapAF\<close> the array \<^verbatim>\<open>serial(arr)\<close> resolved to.  For a callable whose result is the
  same for the two, \<^verbatim>\<open>mapAF\<close> resolves to an array in the one mode if and only if it
  resolves to the same array in the other, whatever the order of settlement; slot \<open>j\<close>
  of that array is a hole when slot \<open>j\<close> of the input is, and otherwise holds what the
  callable's result for the resolved element of slot \<open>j\<close> resolved to.
\<close>

lemma mapAF_modes_agree:
  assumes "settle (data this) = Fulfil arr" and "permissiveIsArrayLike arr"
    and "length (normalize arr) < 2 ^ 32"
    and "\<And>el j. f thisArg el j (VArr (map resolved_slot (normalize arr)))
                 = f thisArg el j (VArr (normalize arr))"
  shows "(settle (data (fst (mapAF order (this\<lparr>inSeries := False\<rparr>) (Fn f) thisArg))) = Fulfil r
          \<longleftrightarrow> settle (data (fst (mapAF order' (this\<lparr>inSeries := True\<rparr>) (Fn f) thisArg))) = Fulfil r)
       \<and> (\<forall>s. settle (data (fst (mapAF order (this\<lparr>inSeries := s\<rparr>) (Fn f) thisArg))) = Fulfil r
              \<longrightarrow> (\<exists>ys. r = VArr ys \<and> length ys = length (normalize arr)
                    \<and> (\<forall>j<length (normalize arr).
                          case normalize arr ! j of
                            None \<Rightarrow> ys ! j = None
                          | Some el \<Rightarrow>
                              (\<exists>v rv w. settle el = Fulfil v
                                 \<and> f thisArg v j (VArr (normalize arr)) = Return rv
                                 \<and> settle rv = Fulfil w \<and> ys ! j = Some w))))"
proof -
  let ?xs = "normalize arr"
  have cong: "slots_outcome f thisArg (VArr (map resolved_slot ?xs)) 0 ?xs
                = slots_outcome f thisArg (VArr ?xs) 0 ?xs"
    using assms(4) by (rule slots_outcome_cong)
  have mode: "settle (data (fst (mapAF o' (this\<lparr>inSeries := s\<rparr>) (Fn f) thisArg))) = Fulfil r
                \<longleftrightarrow> (\<exists>ys. r = VArr ys \<and> slots_outcome f thisArg (VArr ?xs) 0 ?xs = Some ys)"
    for o' s
    using mapAF_fulfilled [of "this\<lparr>inSeries := s\<rparr>" arr o' f thisArg r] assms(1-3) cong
    by (cases s) simp_all
  have shape: "\<exists>ys. r = VArr ys \<and> length ys = length ?xs
                 \<and> (\<forall>j<length ?xs.
                       case ?xs ! j of
                         None \<Rightarrow> ys ! j = None
                       | Some el \<Rightarrow>
                           (\<exists>v rv w. settle el = Fulfil v \<and> f thisArg v j (VArr ?xs) = Return rv
                              \<and> settle rv = Fulfil w \<and> ys ! j = Some w))"
    if "settle (data (fst (mapAF order (this\<lparr>inSeries := s\<rparr>) (Fn f) thisArg))) = Fulfil r" for s
  proof -
    from that obtain ys where ys: "r = VArr ys" "slots_outcome f thisArg (VArr ?xs) 0 ?xs = Some ys"
      unfolding mode by blast
    from slots_outcome_shape [OF ys(2)]
    have len: "length ys = length ?xs" and holes: "\<forall>j<length ?xs. (ys ! j = None) = (?xs ! j = None)"
      by blast+
    have "case ?xs ! j of
            None \<Rightarrow> ys ! j = None
          | Some el \<Rightarrow>
              (\<exists>v rv w. settle el = Fulfil v \<and> f thisArg v j (VArr ?xs) = Return rv
                 \<and> settle rv = Fulfil w \<and> ys ! j = Some w)"
      if j: "j < length ?xs" for j
    proof (cases "?xs ! j")
      case None
      then show ?thesis using holes j by simp
    next
      case (Some el)
      from slots_outcome_nth [OF ys(2) j Some] Some show ?thesis by simp
    qed
    with ys(1) len show ?thesis by blast
  qed
  show ?thesis
    using mode [of order False] mode [of order' True] shape by blast
qed

text \<open>
  A collection and the same collection with every element replaced by an already-settled
  deferred value of that element.  In SERIAL mode \<^verbatim>\<open>mapAF\<close> gives the same stage and the
  same log on the two, for every callable argument.  In PARALLEL mode each invocation
  receives the view of its own collection; for a callable whose result is the same for
  the two views, the stage is the same and the logs are the same up to that argument.
\<close>

lemma mapAF_round_trip:
  assumes "settle d = Fulfil arr" and "settle d' = Fulfil arr'"
    and "permissiveIsArrayLike arr" and "permissiveIsArrayLike arr'"
    and "normalize arr' = map (map_option VFulfilled) (normalize arr)"
  shows "mapAF order \<lparr>data = d', inSeries = True\<rparr> callback thisArg
           = mapAF order \<lparr>data = d, inSeries = True\<rparr> callback thisArg
       \<and> ((\<forall>el j. f thisArg el j (VArr (normalize arr')) = f thisArg el j (VArr (normalize arr)))
          \<longrightarrow> fst (mapAF order \<lparr>data = d', inSeries = False\<rparr> (Fn f) thisArg)
                = fst (mapAF order \<lparr>data = d, inSeries = False\<rparr> (Fn f) thisArg)
              \<and> map stripped (snd (mapAF order \<lparr>data = d', inSeries = False\<rparr> (Fn f) thisArg))
                = map stripped (snd (mapAF order \<lparr>data = d, inSeries = False\<rparr> (Fn f) thisArg)))"
proof (intro conjI impI)
  show "mapAF order \<lparr>data = d', inSeries = True\<rparr> callback thisArg
           = mapAF order \<lparr>data = d, inSeries = True\<rparr> callback thisArg"
  proof (cases callback)
    case (NotFn c)
    then show ?thesis
      using assms(1-4) by (simp add: mapAF_NotFn)
  next
    case (Fn g)
    then show ?thesis
      using assms(1-4) mapAF_series_wrapped [OF assms(5), of order g thisArg]
      by (simp add: mapAF_Fn)
  qed
next
  assume "\<forall>el j. f thisArg el j (VArr (normalize arr')) = f thisArg el j (VArr (normalize arr))"
  then have eq: "\<And>el j. f thisArg el j (VArr (normalize arr')) = f thisArg el j (VArr (normalize arr))"
    by blast
  note par = parallel_wrapped [of arr' arr f thisArg order, OF assms(5) eq]
  show "fst (mapAF order \<lparr>data = d', inSeries = False\<rparr> (Fn f) thisArg)
          = fst (mapAF order \<lparr>data = d, inSeries = False\<rparr> (Fn f) thisArg)"
    using assms(1-4) par(1) by (simp add: mapAF_Fn)
  show "map stripped (snd (mapAF order \<lparr>data = d', inSeries = False\<rparr> (Fn f) thisArg))
          = map stripped (snd (mapAF order \<lparr>data = d, inSeries = False\<rparr> (Fn f) thisArg))"
    using assms(1-4) par(2) by (simp add: mapAF_Fn)
qed

section \<open>Claims\<close>

text \<open>
  C1.  \<^verbatim>\<open>mapAF\<close> on a sparse indexed sequence, in either mode.  Whenever the new stage
  resolves, it resolves to an array of the same length with holes at exactly the
  positions of the input's holes, and the callable has been invoked exactly once for each
  present slot.  In every run the callable is invoked at most once per slot and never
  for a hole.  The stage does resolve when every present element resolves and the
  callable, invoked on each resolved element at its index, returns a value that resolves.
  With \<^verbatim>\<open>[, , 1, , 2, , ,]\<close> and
  \<^verbatim>\<open>n => n * 2\<close> it resolves to \<^verbatim>\<open>[, , 2, , 4, , ,]\<close> (length 7) after two
  invocations, at the indices 2 and 4.
\<close>

theorem mapAF_preserves_holes:
  assumes "settle (data this) = Fulfil (VArr xs)" and "length xs < 2 ^ 32"
  shows "(\<forall>r. settle (data (fst (mapAF order this (Fn f) thisArg))) = Fulfil r \<longrightarrow>
            (\<exists>ys. r = VArr ys \<and> length ys = length xs
                 \<and> (\<forall>j<length xs. (ys ! j = None) = (xs ! j = None))
                 \<and> invoked_indices (snd (mapAF order this (Fn f) thisArg))
                     = filter (\<lambda>j. xs ! j \<noteq> None) [0..<length xs]))
       \<and> distinct (invoked_indices (snd (mapAF order this (Fn f) thisArg)))
       \<and> (\<forall>j\<in>set (invoked_indices (snd (mapAF order this (Fn f) thisArg))).
             j < length xs \<and> xs ! j \<noteq> None)
       \<and> ((\<forall>j<length xs. \<forall>el. xs ! j = Some el \<longrightarrow>
               (\<exists>v. settle el = Fulfil v
                  \<and> (\<forall>a. \<exists>rv w. f thisArg v j a = Return rv \<and> settle rv = Fulfil w)))
          \<longrightarrow> (\<exists>ys. fst (mapAF order this (Fn f) thisArg) = this\<lparr>data := VFulfilled (VArr ys)\<rparr>))
       \<and> (\<forall>s. fst (mapAF order
                  \<lparr>data = VArr [None, None, Some (VNum 1), None, Some (VNum 2), None, None],
                   inSeries = s\<rparr> (Fn double) thisArg)
                = \<lparr>data = VFulfilled
                      (VArr [None, None, Some (VNum 2), None, Some (VNum 4), None, None]),
                   inSeries = s\<rparr>
              \<and> length [None, None, Some (VNum 2), None, Some (VNum 4), None, None :: val option] = 7
              \<and> invoked_indices (snd (mapAF order
                    \<lparr>data = VArr [None, None, Some (VNum 1), None, Some (VNum 2), None, None],
                     inSeries = s\<rparr> (Fn double) thisArg)) = [2, 4])"
proof -
  have el: "permissiveIsArrayLike (VArr xs)" "length (normalize (VArr xs)) < 2 ^ 32"
    using assms(2) by simp_all
  note H = assms(1) el
  let ?log = "snd (mapAF order this (Fn f) thisArg)"
  let ?a = "if inSeries this then VArr (map resolved_slot xs) else VArr xs"
  have 1: "\<exists>ys. r = VArr ys \<and> length ys = length xs
                 \<and> (\<forall>j<length xs. (ys ! j = None) = (xs ! j = None))
                 \<and> invoked_indices ?log = filter (\<lambda>j. xs ! j \<noteq> None) [0..<length xs]"
    if r: "settle (data (fst (mapAF order this (Fn f) thisArg))) = Fulfil r" for r
  proof -
    from r obtain ys where ys: "r = VArr ys" "slots_outcome f thisArg ?a 0 xs = Some ys"
      unfolding mapAF_fulfilled [OF H] normalize.simps by auto
    from slots_outcome_shape [OF ys(2)]
    have "length ys = length xs \<and> (\<forall>j<length xs. (ys ! j = None) = (xs ! j = None))" .
    moreover have "invoked_indices ?log = filter (\<lambda>j. xs ! j \<noteq> None) [0..<length xs]"
      using mapAF_fulfilled_indices [OF H r] by (simp add: present_indices)
    ultimately show ?thesis using ys(1) by blast
  qed
  have 2: "distinct (invoked_indices ?log)"
    using H by (rule mapAF_log_indices)
  have 3: "j < length xs \<and> xs ! j \<noteq> None" if "j \<in> set (invoked_indices ?log)" for j
  proof -
    from that obtain t el a where "Invoked t el j a \<in> set ?log"
      unfolding invoked_indices_mem by blast
    from mapAF_log_invoked [OF H this] show ?thesis by auto
  qed
  have 4: "\<exists>ys. fst (mapAF order this (Fn f) thisArg) = this\<lparr>data := VFulfilled (VArr ys)\<rparr>"
    if ok: "\<forall>j<length xs. \<forall>el. xs ! j = Some el \<longrightarrow>
               (\<exists>v. settle el = Fulfil v
                  \<and> (\<forall>a. \<exists>rv w. f thisArg v j a = Return rv \<and> settle rv = Fulfil w))"
  proof -
    have "\<exists>v rv w. settle el = Fulfil v \<and> f thisArg v (0 + j) ?a = Return rv \<and> settle rv = Fulfil w"
      if "j < length xs" "xs ! j = Some el" for j el
      using ok that by fastforce
    from slots_outcome_total [where xs = xs and f = f and t = thisArg and i = 0 and a = ?a, OF this]
    obtain ys where ys: "slots_outcome f thisArg ?a 0 xs = Some ys"
      by blast
    then have "fst (if inSeries this then mapAF_series order f thisArg (VArr xs)
                    else parallel order (VArr xs) f thisArg) = Fulfil ys"
      using el(2) by (cases "inSeries this") (simp_all add: mapAF_series_fst parallel_fst)
    then have "fst (mapAF order this (Fn f) thisArg) = this\<lparr>data := VFulfilled (VArr ys)\<rparr>"
      using H by (simp add: mapAF_Fn)
    then show ?thesis ..
  qed
  show ?thesis
  proof (intro conjI)
    show "\<forall>r. settle (data (fst (mapAF order this (Fn f) thisArg))) = Fulfil r \<longrightarrow>
            (\<exists>ys. r = VArr ys \<and> length ys = length xs
                 \<and> (\<forall>j<length xs. (ys ! j = None) = (xs ! j = None))
                 \<and> invoked_indices ?log = filter (\<lambda>j. xs ! j \<noteq> None) [0..<length xs])"
      using 1 by blast
    show "distinct (invoked_indices ?log)"
      by (rule 2)
    show "\<forall>j\<in>set (invoked_indices ?log). j < length xs \<and> xs ! j \<noteq> None"
      using 3 by blast
    show "(\<forall>j<length xs. \<forall>el. xs ! j = Some el \<longrightarrow>
               (\<exists>v. settle el = Fulfil v
                  \<and> (\<forall>a. \<exists>rv w. f thisArg v j a = Return rv \<and> settle rv = Fulfil w)))
          \<longrightarrow> (\<exists>ys. fst (mapAF order this (Fn f) thisArg) = this\<lparr>data := VFulfilled (VArr ys)\<rparr>)"
      using 4 by blast
    show "\<forall>s. fst (mapAF order
                  \<lparr>data = VArr [None, None, Some (VNum 1), None, Some (VNum 2), None, None],
                   inSeries = s\<rparr> (Fn double) thisArg)
                = \<lparr>data = VFulfilled
                      (VArr [None, None, Some (VNum 2), None, Some (VNum 4), None, None]),
                   inSeries = s\<rparr>
              \<and> length [None, None, Some (VNum 2), None, Some (VNum 4), None, None :: val option] = 7
              \<and> invoked_indices (snd (mapAF order
                    \<lparr>data = VArr [None, None, Some (VNum 1), None, Some (VNum 2), None, None],
                     inSeries = s\<rparr> (Fn double) thisArg)) = [2, 4]"
      using mapAF_double_sparse by simp
  qed
qed

theorem mapAF_preserves_holes_witness:
  "settle (data (AsyncAF (VArr [Some (VFulfilled (VNum 3)), None, Some (VNum 4)])))
     = Fulfil (VArr [Some (VFulfilled (VNum 3)), None, Some (VNum 4)])
   \<and> length [Some (VFulfilled (VNum 3)), None, Some (VNum 4)] < (2::nat) ^ 32
   \<and> distinct (invoked_indices (snd (mapAF [] (AsyncAF
         (VArr [Some (VFulfilled (VNum 3)), None, Some (VNum 4)])) (Fn double) VUndefined)))
   \<and> (\<exists>ys. fst (mapAF [] (AsyncAF (VArr [Some (VFulfilled (VNum 3)), None, Some (VNum 4)]))
                  (Fn double) VUndefined)
             = \<lparr>data = VFulfilled (VArr ys), inSeries = False\<rparr>)"
proof -
  let ?xs = "[Some (VFulfilled (VNum 3)), None, Some (VNum 4)]"
  have h1: "settle (data (AsyncAF (VArr ?xs))) = Fulfil (VArr ?xs)"
    by (simp add: AsyncAF_def)
  have h2: "length ?xs < (2::nat) ^ 32"
    by simp
  have h3: "\<forall>x\<in>set ?xs. failure x = None"
    by simp
  have h4: "\<forall>j<length ?xs. \<forall>el. ?xs ! j = Some el \<longrightarrow>
               (\<exists>v. settle el = Fulfil v
                  \<and> (\<forall>a. \<exists>rv w. double VUndefined v j a = Return rv \<and> settle rv = Fulfil w))"
    using h3 double_total by (rule total_callable_slots)
  note inst = mapAF_preserves_holes [OF h1 h2, of "[]" double VUndefined]
  from inst have "distinct (invoked_indices (snd (mapAF [] (AsyncAF (VArr ?xs)) (Fn double) VUndefined)))"
    by blast
  moreover from inst h4
  have "\<exists>ys. fst (mapAF [] (AsyncAF (VArr ?xs)) (Fn double) VUndefined)
              = (AsyncAF (VArr ?xs))\<lparr>data := VFulfilled (VArr ys)\<rparr>"
    by blast
  ultimately show ?thesis
    using h1 h2 by (simp add: AsyncAF_def)
qed

text \<open>
  C2, as the claim states it, fails: in SERIAL mode on
  \<^verbatim>\<open>[Promise.resolve(1), Promise.resolve(2)]\<close> the element of index 1 is resolved
  before the callable is invoked for index 0, so the events of the log are not grouped
  index by index.
\<close>

theorem mapAF_series_steps_counterexample:
  "snd (mapAF [] (series (AsyncAF (VArr [Some (VFulfilled (VNum 1)), Some (VFulfilled (VNum 2))])))
          (Fn double) (VStr ''ctx''))
     = [ElementResolved 0, ElementResolved 1,
        Invoked (VStr ''ctx'') (VNum 1) 0 (VArr [Some (VNum 1), Some (VNum 2)]), ResultResolved 0,
        Invoked (VStr ''ctx'') (VNum 2) 1 (VArr [Some (VNum 1), Some (VNum 2)]), ResultResolved 1]
   \<and> \<not> sorted (map event_index
         (snd (mapAF [] (series (AsyncAF (VArr [Some (VFulfilled (VNum 1)), Some (VFulfilled (VNum 2))])))
                 (Fn double) (VStr ''ctx''))))"
  by (simp add: mapAF_series_double_deferred)

text \<open>
  C2, amended.  In SERIAL mode the log of \<^verbatim>\<open>mapAF\<close> is a run of element resolutions
  followed by a run of invocations.  The first is an initial part of the resolutions of
  the present slots in ascending index order; the second is an initial part of, for the
  present slots in ascending index order, the invocation of the callable on the resolved
  element followed by the resolution of what it returned.  No invocation happens before
  all present elements are resolved, and when the stage resolves both runs are complete.
\<close>

theorem mapAF_series_order:
  assumes "settle (data this) = Fulfil arr" and "permissiveIsArrayLike arr"
    and "length (normalize arr) < 2 ^ 32" and "inSeries this"
  shows "\<exists>es cs rest1 rest2.
           snd (mapAF order this (Fn f) thisArg) = es @ cs
         \<and> es @ rest1 = map (ElementResolved \<circ> fst) (present (normalize arr))
         \<and> cs @ rest2 =
             concat (map (\<lambda>(j, el). [Invoked thisArg el j (VArr (map resolved_slot (normalize arr))),
                                     ResultResolved j])
                       (present (map resolved_slot (normalize arr))))
         \<and> (cs \<noteq> [] \<longrightarrow> rest1 = [])
         \<and> (\<forall>r. settle (data (fst (mapAF order this (Fn f) thisArg))) = Fulfil r
                \<longrightarrow> rest1 = [] \<and> rest2 = [])"
proof (cases "\<forall>x\<in>set (normalize arr). failure x = None")
  case True
  let ?R = "map resolved_slot (normalize arr)"
  let ?ideal = "concat (map (\<lambda>(j, el). [Invoked thisArg el j (VArr ?R), ResultResolved j]) (present ?R))"
  let ?es = "map (ElementResolved \<circ> fst) (present (normalize arr))"
  let ?cs = "snd (run_slots f thisArg (VArr ?R) 0 ?R)"
  have eq: "mapAF order this (Fn f) thisArg =
              (this\<lparr>data := promise_of (map_outcome VArr (fst (run_slots f thisArg (VArr ?R) 0 ?R)))\<rparr>,
               ?es @ ?cs)"
    using assms True by (simp add: mapAF_serial_resolved)
  obtain rest2 where rest2: "?ideal = ?cs @ rest2"
    unfolding present_def using run_slots_log_prefix by blast
  have full: "rest2 = []" if "settle (data (fst (mapAF order this (Fn f) thisArg))) = Fulfil r" for r
  proof -
    from that obtain ys where "fst (run_slots f thisArg (VArr ?R) 0 ?R) = Fulfil ys"
      unfolding eq by (auto simp: settle_promise_of_VArr map_outcome_Fulfil_iff)
    then have "?cs = ?ideal"
      unfolding present_def by (rule run_slots_log_full)
    with rest2 show ?thesis by simp
  qed
  have "snd (mapAF order this (Fn f) thisArg) = ?es @ ?cs
         \<and> ?es @ [] = ?es \<and> ?cs @ rest2 = ?ideal \<and> (?cs \<noteq> [] \<longrightarrow> [] = ([] :: event list))
         \<and> (\<forall>r. settle (data (fst (mapAF order this (Fn f) thisArg))) = Fulfil r
                \<longrightarrow> [] = ([] :: event list) \<and> rest2 = [])"
    using eq rest2 full by simp
  then show ?thesis by blast
next
  case False
  let ?R = "map resolved_slot (normalize arr)"
  let ?ideal = "concat (map (\<lambda>(j, el). [Invoked thisArg el j (VArr ?R), ResultResolved j]) (present ?R))"
  let ?es = "snd (resolveSerially 0 (normalize arr))"
  from mapAF_series_rejected [OF False, of order f thisArg]
  obtain e where e: "mapAF_series order f thisArg arr = (Reject e, ?es)"
    by blast
  then have eq: "mapAF order this (Fn f) thisArg = (this\<lparr>data := VRejected e\<rparr>, ?es)"
    using assms by (simp add: mapAF_Fn)
  obtain rest1 where rest1: "map (ElementResolved \<circ> fst) (present (normalize arr)) = ?es @ rest1"
    unfolding present_def using resolveSerially_log_prefix by blast
  have "snd (mapAF order this (Fn f) thisArg) = ?es @ []
         \<and> ?es @ rest1 = map (ElementResolved \<circ> fst) (present (normalize arr))
         \<and> [] @ ?ideal = ?ideal \<and> (([] :: event list) \<noteq> [] \<longrightarrow> rest1 = [])
         \<and> (\<forall>r. settle (data (fst (mapAF order this (Fn f) thisArg))) = Fulfil r
                \<longrightarrow> rest1 = [] \<and> ?ideal = [])"
    using eq rest1 by simp
  then show ?thesis by blast
qed

theorem mapAF_series_order_witness:
  "settle (data (series (AsyncAF (VArr [Some (VFulfilled (VNum 1)), Some (VFulfilled (VNum 2))]))))
     = Fulfil (VArr [Some (VFulfilled (VNum 1)), Some (VFulfilled (VNum 2))])
   \<and> permissiveIsArrayLike (VArr [Some (VFulfilled (VNum 1)), Some (VFulfilled (VNum 2))])
   \<and> length (normalize (VArr [Some (VFulfilled (VNum 1)), Some (VFulfilled (VNum 2))])) < (2::nat) ^ 32
   \<and> inSeries (series (AsyncAF (VArr [Some (VFulfilled (VNum 1)), Some (VFulfilled (VNum 2))])))
   \<and> (\<exists>es cs rest1 rest2.
         snd (mapAF [] (series (AsyncAF (VArr [Some (VFulfilled (VNum 1)), Some (VFulfilled (VNum 2))])))
                (Fn double) VNull) = es @ cs
       \<and> es @ rest1 = [ElementResolved 0, ElementResolved 1]
       \<and> cs @ rest2 =
           [Invoked VNull (VNum 1) 0 (VArr [Some (VNum 1), Some (VNum 2)]), ResultResolved 0,
            Invoked VNull (VNum 2) 1 (VArr [Some (VNum 1), Some (VNum 2)]), ResultResolved 1]
       \<and> (cs \<noteq> [] \<longrightarrow> rest1 = [])
       \<and> (\<forall>r. settle (data (fst (mapAF [] (series (AsyncAF
                   (VArr [Some (VFulfilled (VNum 1)), Some (VFulfilled (VNum 2))])))
                 (Fn double) VNull))) = Fulfil r
              \<longrightarrow> rest1 = [] \<and> rest2 = []))"
proof -
  let ?arr = "VArr [Some (VFulfilled (VNum 1)), Some (VFulfilled (VNum 2))]"
  have h1: "settle (data (series (AsyncAF ?arr))) = Fulfil ?arr"
    by (simp add: AsyncAF_def series_def)
  have h2: "permissiveIsArrayLike ?arr"
    by simp
  have h3: "length (normalize ?arr) < (2::nat) ^ 32"
    by simp
  have h4: "inSeries (series (AsyncAF ?arr))"
    by (simp add: series_def)
  have p1: "map (ElementResolved \<circ> fst) (present (normalize ?arr))
              = [ElementResolved 0, ElementResolved 1]"
    by (simp add: present_def)
  have p2: "concat (map (\<lambda>(j, el). [Invoked VNull el j (VArr (map resolved_slot (normalize ?arr))),
                                     ResultResolved j])
                       (present (map resolved_slot (normalize ?arr))))
              = [Invoked VNull (VNum 1) 0 (VArr [Some (VNum 1), Some (VNum 2)]), ResultResolved 0,
                 Invoked VNull (VNum 2) 1 (VArr [Some (VNum 1), Some (VNum 2)]), ResultResolved 1]"
    by (simp add: present_def)
  from mapAF_series_order [OF h1 h2 h3 h4, of "[]" double VNull]
  show ?thesis
    unfolding p1 p2 using h1 h2 h3 h4 by blast
qed

text \<open>
  C4.  Construction stores any value as it is.  Chaining \<^verbatim>\<open>mapAF\<close> or
  \<^verbatim>\<open>forEachAF\<close> to any stage with any callable argument returns a stage that holds a
  deferred value; when the settled input is not an eligible collection, or the callable
  argument is not a function, that deferred value is rejected with a TypeError: the
  error is never an exception of the chaining call.
\<close>

theorem chaining_rejects_instead_of_throwing:
  "data (AsyncAF d) = d
   \<and> (\<exists>r. data (fst (mapAF order this callback thisArg)) = promise_of r)
   \<and> (\<exists>r. data (fst (forEachAF order this callback thisArg)) = promise_of r)
   \<and> (settle (data this) = Fulfil v \<and> (\<not> permissiveIsArrayLike v \<or> (\<exists>c. callback = NotFn c)) \<longrightarrow>
        (\<exists>m. mapAF order this callback thisArg = (this\<lparr>data := VRejected (VTypeError m)\<rparr>, []))
        \<and> (\<exists>m. forEachAF order this callback thisArg
                  = (this\<lparr>data := VRejected (VTypeError m)\<rparr>, [])))"
proof (intro conjI impI)
  show "data (AsyncAF d) = d"
    by (simp add: AsyncAF_def)
  show "\<exists>r. data (fst (mapAF order this callback thisArg)) = promise_of r"
    unfolding mapAF_def by (rule then_AF_promise)
  show "\<exists>r. data (fst (forEachAF order this callback thisArg)) = promise_of r"
    unfolding forEachAF_def by (rule then_AF_promise)
next
  assume a: "settle (data this) = Fulfil v \<and> (\<not> permissiveIsArrayLike v \<or> (\<exists>c. callback = NotFn c))"
  then have v: "settle (data this) = Fulfil v" by simp
  show "\<exists>m. mapAF order this callback thisArg = (this\<lparr>data := VRejected (VTypeError m)\<rparr>, [])"
  proof (cases "permissiveIsArrayLike v")
    case False
    from mapAF_ineligible [OF v False] show ?thesis ..
  next
    case True
    with a obtain c where "callback = NotFn c" by blast
    with mapAF_NotFn [OF v True] show ?thesis by blast
  qed
  show "\<exists>m. forEachAF order this callback thisArg = (this\<lparr>data := VRejected (VTypeError m)\<rparr>, [])"
  proof (cases "permissiveIsArrayLike v")
    case False
    from forEachAF_ineligible [OF v False] show ?thesis ..
  next
    case True
    with a obtain c where "callback = NotFn c" by blast
    with forEachAF_NotFn [OF v True] show ?thesis by blast
  qed
qed

theorem chaining_rejects_instead_of_throwing_witness:
  "settle (data (AsyncAF VNull)) = Fulfil VNull
   \<and> \<not> permissiveIsArrayLike VNull
   \<and> (\<exists>m. mapAF [] (AsyncAF VNull) (NotFn (VNum 3)) VUndefined
             = (\<lparr>data = VRejected (VTypeError m), inSeries = False\<rparr>, []))"
  using chaining_rejects_instead_of_throwing [of VNull "[]" "AsyncAF VNull" "NotFn (VNum 3)" VUndefined VNull]
  by (simp add: AsyncAF_def)

text \<open>
  C5.  When the settled input of the stage is not an eligible collection, \<^verbatim>\<open>mapAF\<close>
  (and likewise \<^verbatim>\<open>forEachAF\<close>) rejects with a TypeError whose message is the
  operation name, \<^verbatim>\<open>cannot be called on\<close>, the default string coercion of the input,
  and \<^verbatim>\<open>only on an Array or array-like Object\<close> (the variant of the message without
  \<^verbatim>\<open>String\<close>); nothing is resolved and the callable is not invoked.  For null,
  undefined and a plain record the message embeds \<^verbatim>\<open>null\<close>, \<^verbatim>\<open>undefined\<close> and
  \<^verbatim>\<open>[object Object]\<close>.
\<close>

theorem mapAF_shape_rejection_message:
  assumes "settle (data this) = Fulfil v" and "\<not> permissiveIsArrayLike v"
  shows "mapAF order this callback thisArg =
           (this\<lparr>data := VRejected (VTypeError
              (''mapAF cannot be called on '' @ toString v
                 @ '', only on an Array or array-like Object''))\<rparr>, [])
       \<and> forEachAF order this callback thisArg =
           (this\<lparr>data := VRejected (VTypeError
              (''forEachAF cannot be called on '' @ toString v
                 @ '', only on an Array or array-like Object''))\<rparr>, [])
       \<and> data (fst (mapAF order (AsyncAF VNull) callback thisArg)) =
           VRejected (VTypeError
             ''mapAF cannot be called on null, only on an Array or array-like Object'')
       \<and> data (fst (mapAF order (AsyncAF VUndefined) callback thisArg)) =
           VRejected (VTypeError
             ''mapAF cannot be called on undefined, only on an Array or array-like Object'')
       \<and> data (fst (mapAF order (AsyncAF (VRec None [])) callback thisArg)) =
           VRejected (VTypeError
             ''mapAF cannot be called on [object Object], only on an Array or array-like Object'')"
proof (intro conjI)
  show "mapAF order this callback thisArg =
           (this\<lparr>data := VRejected (VTypeError
              (''mapAF cannot be called on '' @ toString v
                 @ '', only on an Array or array-like Object''))\<rparr>, [])"
    using assms by (rule mapAF_ineligible)
  show "forEachAF order this callback thisArg =
           (this\<lparr>data := VRejected (VTypeError
              (''forEachAF cannot be called on '' @ toString v
                 @ '', only on an Array or array-like Object''))\<rparr>, [])"
    using assms by (rule forEachAF_ineligible)
  show "data (fst (mapAF order (AsyncAF VNull) callback thisArg)) =
           VRejected (VTypeError
             ''mapAF cannot be called on null, only on an Array or array-like Object'')"
    by (simp add: mapAF_def then_AF_def AsyncAF_def)
  show "data (fst (mapAF order (AsyncAF VUndefined) callback thisArg)) =
           VRejected (VTypeError
             ''mapAF cannot be called on undefined, only on an Array or array-like Object'')"
    by (simp add: mapAF_def then_AF_def AsyncAF_def)
  show "data (fst (mapAF order (AsyncAF (VRec None [])) callback thisArg)) =
           VRejected (VTypeError
             ''mapAF cannot be called on [object Object], only on an Array or array-like Object'')"
    by (simp add: mapAF_def then_AF_def AsyncAF_def)
qed

theorem mapAF_shape_rejection_message_witness:
  "settle (data (AsyncAF (VFulfilled (VNum 2)))) = Fulfil (VNum 2)
   \<and> \<not> permissiveIsArrayLike (VNum 2)
   \<and> mapAF [] (AsyncAF (VFulfilled (VNum 2))) (Fn double) VUndefined =
       (\<lparr>data = VRejected (VTypeError
           ''mapAF cannot be called on 2, only on an Array or array-like Object''),
         inSeries = False\<rparr>, [])"
  using mapAF_shape_rejection_message
          [of "AsyncAF (VFulfilled (VNum 2))" "VNum 2" "[]" "Fn double" VUndefined]
  by (simp add: AsyncAF_def Number_toString_def number_value_def)

text \<open>
  C6.  On an eligible collection, a callable argument that is not a function makes
  \<^verbatim>\<open>mapAF\<close> reject with a TypeError whose message is the string coercion of the
  argument followed by \<^verbatim>\<open>is not a function\<close>; the log is empty, so no element has
  been resolved.  With \<^verbatim>\<open>[1, 2, 3]\<close> and no callable the message is
  \<^verbatim>\<open>undefined is not a function\<close>.
\<close>

theorem mapAF_missing_callable_message:
  assumes "settle (data this) = Fulfil arr" and "permissiveIsArrayLike arr"
  shows "mapAF order this (NotFn c) thisArg =
           (this\<lparr>data := VRejected (VTypeError (toString c @ '' is not a function''))\<rparr>, [])
       \<and> mapAF order (AsyncAF (VArr [Some (VNum 1), Some (VNum 2), Some (VNum 3)]))
           (NotFn VUndefined) VUndefined =
           (\<lparr>data = VRejected (VTypeError ''undefined is not a function''),
             inSeries = False\<rparr>, [])"
proof
  show "mapAF order this (NotFn c) thisArg =
           (this\<lparr>data := VRejected (VTypeError (toString c @ '' is not a function''))\<rparr>, [])"
    using assms by (rule mapAF_NotFn)
  show "mapAF order (AsyncAF (VArr [Some (VNum 1), Some (VNum 2), Some (VNum 3)]))
           (NotFn VUndefined) VUndefined =
           (\<lparr>data = VRejected (VTypeError ''undefined is not a function''),
             inSeries = False\<rparr>, [])"
    by (simp add: mapAF_def then_AF_def AsyncAF_def)
qed

theorem mapAF_missing_callable_message_witness:
  "settle (data (series (AsyncAF (VStr ''ab'')))) = Fulfil (VStr ''ab'')
   \<and> permissiveIsArrayLike (VStr ''ab'')
   \<and> mapAF [] (series (AsyncAF (VStr ''ab''))) (NotFn VNull) VUndefined =
       (\<lparr>data = VRejected (VTypeError ''null is not a function''), inSeries = True\<rparr>, [])"
  using mapAF_missing_callable_message [of "series (AsyncAF (VStr ''ab''))" "VStr ''ab''" "[]" VNull VUndefined]
  by (simp add: AsyncAF_def series_def)

text \<open>
  C7.  In either mode, every invocation of the callable by \<^verbatim>\<open>mapAF\<close> is bound to the
  invocation context given to \<^verbatim>\<open>mapAF\<close>, its second argument is the index of a
  present slot of the collection, and its first argument is what the element of that
  slot resolved to.  With \<^verbatim>\<open>[1, 2, 3]\<close> and
  \<^verbatim>\<open>(n, i, arr) => n + (arr[i - 1] || 0)\<close> the stage resolves to \<^verbatim>\<open>[1, 3, 5]\<close>.
\<close>

theorem mapAF_invocation_arguments:
  assumes "settle (data this) = Fulfil arr" and "permissiveIsArrayLike arr"
    and "length (normalize arr) < 2 ^ 32"
  shows "(\<forall>t el j a. Invoked t el j a \<in> set (snd (mapAF order this (Fn f) thisArg)) \<longrightarrow>
            t = thisArg \<and> j < length (normalize arr)
            \<and> (\<exists>x. normalize arr ! j = Some x \<and> settle x = Fulfil el))
       \<and> (\<forall>s. fst (mapAF order
                  \<lparr>data = VArr [Some (VNum 1), Some (VNum 2), Some (VNum 3)], inSeries = s\<rparr>
                  (Fn add_previous) thisArg)
                = \<lparr>data = VFulfilled (VArr [Some (VNum 1), Some (VNum 3), Some (VNum 5)]),
                   inSeries = s\<rparr>)"
proof (intro conjI allI impI)
  fix t el j a
  assume "Invoked t el j a \<in> set (snd (mapAF order this (Fn f) thisArg))"
  from mapAF_log_invoked [OF assms this]
  show "t = thisArg" "j < length (normalize arr)"
    "\<exists>x. normalize arr ! j = Some x \<and> settle x = Fulfil el"
    by blast+
next
  fix s
  show "fst (mapAF order
                  \<lparr>data = VArr [Some (VNum 1), Some (VNum 2), Some (VNum 3)], inSeries = s\<rparr>
                  (Fn add_previous) thisArg)
                = \<lparr>data = VFulfilled (VArr [Some (VNum 1), Some (VNum 3), Some (VNum 5)]),
                   inSeries = s\<rparr>"
    by (rule mapAF_add_previous)
qed

theorem mapAF_invocation_arguments_witness:
  "settle (data (series (AsyncAF (VArr [Some (VFulfilled (VNum 1)), Some (VFulfilled (VNum 2))]))))
     = Fulfil (VArr [Some (VFulfilled (VNum 1)), Some (VFulfilled (VNum 2))])
   \<and> permissiveIsArrayLike (VArr [Some (VFulfilled (VNum 1)), Some (VFulfilled (VNum 2))])
   \<and> length (normalize (VArr [Some (VFulfilled (VNum 1)), Some (VFulfilled (VNum 2))])) < (2::nat) ^ 32
   \<and> Invoked (VStr ''ctx'') (VNum 2) 1 (VArr [Some (VNum 1), Some (VNum 2)])
       \<in> set (snd (mapAF [] (series (AsyncAF
               (VArr [Some (VFulfilled (VNum 1)), Some (VFulfilled (VNum 2))])))
             (Fn double) (VStr ''ctx'')))
   \<and> (\<exists>x. normalize (VArr [Some (VFulfilled (VNum 1)), Some (VFulfilled (VNum 2))]) ! 1 = Some x
          \<and> settle x = Fulfil (VNum 2))"
proof -
  let ?arr = "VArr [Some (VFulfilled (VNum 1)), Some (VFulfilled (VNum 2))]"
  have h1: "settle (data (series (AsyncAF ?arr))) = Fulfil ?arr"
    by (simp add: AsyncAF_def series_def)
  have h2: "permissiveIsArrayLike ?arr"
    by simp
  have h3: "length (normalize ?arr) < (2::nat) ^ 32"
    by simp
  have h4: "Invoked (VStr ''ctx'') (VNum 2) 1 (VArr [Some (VNum 1), Some (VNum 2)])
              \<in> set (snd (mapAF [] (series (AsyncAF ?arr)) (Fn double) (VStr ''ctx'')))"
    by (simp add: mapAF_series_double_deferred)
  from mapAF_invocation_arguments [OF h1 h2 h3, of "[]" double "VStr ''ctx''"] h4
  have "\<exists>x. normalize ?arr ! 1 = Some x \<and> settle x = Fulfil (VNum 2)"
    by blast
  with h1 h2 h3 h4 show ?thesis
    by blast
qed

text \<open>
  C8, as the claim states it, fails in SERIAL mode: for \<^verbatim>\<open>[Promise.resolve(1)]\<close> the
  callable's third argument is \<^verbatim>\<open>[1]\<close>, the array \<^verbatim>\<open>serial(arr)\<close> resolved to, and
  not the original array, whose slot holds the promise.
\<close>

theorem mapAF_series_third_argument_counterexample:
  "snd (mapAF [] (series (AsyncAF (VArr [Some (VFulfilled (VNum 1))]))) (Fn double) VUndefined)
     = [ElementResolved 0, Invoked VUndefined (VNum 1) 0 (VArr [Some (VNum 1)]), ResultResolved 0]
   \<and> VArr [Some (VNum 1)] \<noteq> VArr [Some (VFulfilled (VNum 1))]"
  by (subst mapAF_serial_resolved [where arr = "VArr [Some (VFulfilled (VNum 1))]"])
     (simp_all add: AsyncAF_def series_def present_def run_slots_eval double_def)

text \<open>
  C8, amended.  The third argument of every invocation is, in PARALLEL mode, the
  original unresolved view of the collection and, in SERIAL mode, the array
  \<^verbatim>\<open>serial(arr)\<close> resolved to: the view in which every present slot holds what its
  element resolved to (the reducer of \<^verbatim>\<open>mapAF.js\<close>, lines 59 and 60, passes on the
  array it is reducing).
\<close>

theorem mapAF_third_argument:
  assumes "settle (data this) = Fulfil arr" and "permissiveIsArrayLike arr"
    and "length (normalize arr) < 2 ^ 32"
  shows "\<forall>t el j a. Invoked t el j a \<in> set (snd (mapAF order this (Fn f) thisArg)) \<longrightarrow>
           (if inSeries this
            then a = VArr (map resolved_slot (normalize arr))
                 \<and> (\<forall>x\<in>set (normalize arr). failure x = None)
                 \<and> (\<forall>y\<in>set (map resolved_slot (normalize arr)). stable y)
            else a = VArr (normalize arr))"
proof (intro allI impI)
  fix t el j a
  assume "Invoked t el j a \<in> set (snd (mapAF order this (Fn f) thisArg))"
  from mapAF_log_invoked [OF assms this]
  have a: "a = (if inSeries this then VArr (map resolved_slot (normalize arr)) else VArr (normalize arr))"
    and ok: "inSeries this \<longrightarrow> (\<forall>x\<in>set (normalize arr). failure x = None)"
    by blast+
  show "if inSeries this
        then a = VArr (map resolved_slot (normalize arr))
             \<and> (\<forall>x\<in>set (normalize arr). failure x = None)
             \<and> (\<forall>y\<in>set (map resolved_slot (normalize arr)). stable y)
        else a = VArr (normalize arr)"
  proof (cases "inSeries this")
    case True
    with ok have "\<forall>x\<in>set (normalize arr). failure x = None" by simp
    with stable_resolved_view [OF this] a True show ?thesis by simp
  next
    case False
    with a show ?thesis by simp
  qed
qed

theorem mapAF_third_argument_witness:
  "settle (data (series (AsyncAF (VArr [Some (VFulfilled (VNum 1)), Some (VFulfilled (VNum 2))]))))
     = Fulfil (VArr [Some (VFulfilled (VNum 1)), Some (VFulfilled (VNum 2))])
   \<and> permissiveIsArrayLike (VArr [Some (VFulfilled (VNum 1)), Some (VFulfilled (VNum 2))])
   \<and> length (normalize (VArr [Some (VFulfilled (VNum 1)), Some (VFulfilled (VNum 2))])) < (2::nat) ^ 32
   \<and> Invoked (VStr ''ctx'') (VNum 2) 1 (VArr [Some (VNum 1), Some (VNum 2)])
       \<in> set (snd (mapAF [] (series (AsyncAF
               (VArr [Some (VFulfilled (VNum 1)), Some (VFulfilled (VNum 2))])))
             (Fn double) (VStr ''ctx'')))
   \<and> VArr [Some (VNum 1), Some (VNum 2)]
       = VArr (map resolved_slot (normalize (VArr [Some (VFulfilled (VNum 1)), Some (VFulfilled (VNum 2))])))"
proof -
  let ?arr = "VArr [Some (VFulfilled (VNum 1)), Some (VFulfilled (VNum 2))]"
  have h1: "settle (data (series (AsyncAF ?arr))) = Fulfil ?arr"
    by (simp add: AsyncAF_def series_def)
  have h2: "permissiveIsArrayLike ?arr"
    by simp
  have h3: "length (normalize ?arr) < (2::nat) ^ 32"
    by simp
  have h4: "Invoked (VStr ''ctx'') (VNum 2) 1 (VArr [Some (VNum 1), Some (VNum 2)])
              \<in> set (snd (mapAF [] (series (AsyncAF ?arr)) (Fn double) (VStr ''ctx'')))"
    by (simp add: mapAF_series_double_deferred)
  have s: "inSeries (series (AsyncAF ?arr))"
    by (simp add: series_def)
  from mapAF_third_argument [OF h1 h2 h3, of "[]" double "VStr ''ctx''"] h4 s
  have "VArr [Some (VNum 1), Some (VNum 2)] = VArr (map resolved_slot (normalize ?arr))"
    by (simp only: if_True)
  with h1 h2 h3 h4 show ?thesis
    by blast
qed

text \<open>
  C10.  On an eligible collection and with a function as callable, in either mode, the
  stage \<^verbatim>\<open>forEachAF\<close> returns never resolves to anything but undefined, whatever the
  callable returns; and it does resolve to undefined when every present element resolves
  and the callable, invoked on each resolved element at its index, returns a value that
  resolves.
\<close>

theorem forEachAF_resolves_to_undefined:
  assumes "settle (data this) = Fulfil arr" and "permissiveIsArrayLike arr"
  shows "(\<forall>r. settle (data (fst (forEachAF order this (Fn f) thisArg))) = Fulfil r \<longrightarrow> r = VUndefined)
       \<and> ((\<forall>j<length (normalize arr). \<forall>el. normalize arr ! j = Some el \<longrightarrow>
               (\<exists>v. settle el = Fulfil v
                  \<and> (\<forall>a. \<exists>rv w. f thisArg v j a = Return rv \<and> settle rv = Fulfil w)))
          \<longrightarrow> fst (forEachAF order this (Fn f) thisArg) = this\<lparr>data := VFulfilled VUndefined\<rparr>)"
proof (intro conjI allI impI)
  let ?X = "if inSeries this then forEachAF_series f thisArg arr
            else map_run VArr (parallel order arr f thisArg)"
  note eq = forEachAF_Fn [OF assms, of order f thisArg]
  fix r
  assume "settle (data (fst (forEachAF order this (Fn f) thisArg))) = Fulfil r"
  then show "r = VUndefined"
    unfolding eq by (cases "fst ?X") simp_all
next
  let ?X = "if inSeries this then forEachAF_series f thisArg arr
            else map_run VArr (parallel order arr f thisArg)"
  let ?xs = "normalize arr"
  note eq = forEachAF_Fn [OF assms, of order f thisArg]
  assume ok: "\<forall>j<length ?xs. \<forall>el. ?xs ! j = Some el \<longrightarrow>
               (\<exists>v. settle el = Fulfil v
                  \<and> (\<forall>a. \<exists>rv w. f thisArg v j a = Return rv \<and> settle rv = Fulfil w))"
  have slots: "\<exists>r. slots_outcome f thisArg a 0 ?xs = Some r" for a
  proof -
    have "\<exists>v rv w. settle el = Fulfil v \<and> f thisArg v (0 + j) a = Return rv \<and> settle rv = Fulfil w"
      if "j < length ?xs" "?xs ! j = Some el" for j el
      using ok that by fastforce
    then show ?thesis
      by (rule slots_outcome_total)
  qed
  have "\<exists>u. fst ?X = Fulfil u"
  proof (cases "inSeries this")
    case True
    then show ?thesis
      using slots [of "VArr (map resolved_slot ?xs)"] by (simp add: forEachAF_series_fulfilled)
  next
    case False
    from slots [of "VArr ?xs"]
    obtain r where "slots_outcome f thisArg (VArr ?xs) 0 ?xs = Some r"
      by blast
    then have "fst (parallel order arr f thisArg) = Fulfil r"
      by (simp add: parallel_fst)
    then show ?thesis
      using False by (simp add: fst_map_run)
  qed
  then show "fst (forEachAF order this (Fn f) thisArg) = this\<lparr>data := VFulfilled VUndefined\<rparr>"
    unfolding eq by auto
qed

theorem forEachAF_resolves_to_undefined_witness:
  "settle (data (series (AsyncAF (VArr [Some (VFulfilled (VNum 1)), None, Some (VNum 2)]))))
     = Fulfil (VArr [Some (VFulfilled (VNum 1)), None, Some (VNum 2)])
   \<and> permissiveIsArrayLike (VArr [Some (VFulfilled (VNum 1)), None, Some (VNum 2)])
   \<and> fst (forEachAF [] (series (AsyncAF (VArr [Some (VFulfilled (VNum 1)), None, Some (VNum 2)])))
            (Fn double) VUndefined)
     = \<lparr>data = VFulfilled VUndefined, inSeries = True\<rparr>"
proof -
  let ?arr = "VArr [Some (VFulfilled (VNum 1)), None, Some (VNum 2)]"
  have h1: "settle (data (series (AsyncAF ?arr))) = Fulfil ?arr"
    by (simp add: AsyncAF_def series_def)
  have h2: "permissiveIsArrayLike ?arr"
    by simp
  have h3: "\<forall>x\<in>set (normalize ?arr). failure x = None"
    by simp
  have h4: "\<forall>j<length (normalize ?arr). \<forall>el. normalize ?arr ! j = Some el \<longrightarrow>
               (\<exists>v. settle el = Fulfil v
                  \<and> (\<forall>a. \<exists>rv w. double VUndefined v j a = Return rv \<and> settle rv = Fulfil w))"
    using h3 double_total by (rule total_callable_slots)
  from forEachAF_resolves_to_undefined [OF h1 h2, of "[]" double VUndefined] h4
  have "fst (forEachAF [] (series (AsyncAF ?arr)) (Fn double) VUndefined)
          = (series (AsyncAF ?arr))\<lparr>data := VFulfilled VUndefined\<rparr>"
    by blast
  then show ?thesis
    using h1 h2 by (simp add: AsyncAF_def series_def)
qed

end
